theory Spec2Isabelle
  imports Complex_Main "HOL-Library.Sublist" "HOL-Library.Multiset"
begin

section \<open>Python strings\<close>

text \<open>
  File names and paths are Python \<open>str\<close> values. They are modelled as \<open>string\<close>
  (lists of 8-bit characters), which covers every ASCII name; case mapping and digit
  classes are the ASCII ones.
\<close>

definition startswith :: "string \<Rightarrow> string \<Rightarrow> bool" where
  "startswith s p = (take (length p) s = p)"

definition endswith :: "string \<Rightarrow> string \<Rightarrow> bool" where
  "endswith s p = (length p \<le> length s \<and> drop (length s - length p) s = p)"

definition lower_char :: "char \<Rightarrow> char" where
  "lower_char c =
     (case map_of (zip ''ABCDEFGHIJKLMNOPQRSTUVWXYZ'' ''abcdefghijklmnopqrstuvwxyz'') c of
        Some d \<Rightarrow> d
      | None \<Rightarrow> c)"

definition lower :: "string \<Rightarrow> string" where
  "lower s = map lower_char s"

text \<open>\<open>s.rfind(sep)\<close>: the highest index at which \<open>sep\<close> occurs in \<open>s\<close>; \<open>None\<close> is
  the result \<open>-1\<close>. The last occurrence is the last one in the tail if there is one
  there, and otherwise the one at the head.\<close>

fun rfind :: "string \<Rightarrow> string \<Rightarrow> nat option" where
  "rfind [] sep = (if sep = [] then Some 0 else None)"
| "rfind (c # s) sep =
     (case rfind s sep of
        Some i \<Rightarrow> Some (Suc i)
      | None \<Rightarrow> if startswith (c # s) sep then Some 0 else None)"

text \<open>\<open>s.rsplit(sep, 1)[0]\<close>: everything before the last occurrence of \<open>sep\<close>, or the
  whole of \<open>s\<close> when \<open>sep\<close> does not occur.\<close>

definition rsplit1_head :: "string \<Rightarrow> string \<Rightarrow> string" where
  "rsplit1_head s sep = (case rfind s sep of None \<Rightarrow> s | Some i \<Rightarrow> take i s)"

text \<open>\<open>s.rstrip('/')\<close>\<close>

definition rstrip_slash :: "string \<Rightarrow> string" where
  "rstrip_slash s = rev (dropWhile (\<lambda>c. c = CHR ''/'') (rev s))"

section \<open>Paths (posixpath)\<close>

text \<open>\<open>os.path.join(a, b)\<close> for two arguments: an absolute \<open>b\<close> replaces \<open>a\<close>.\<close>

definition path_join :: "string \<Rightarrow> string \<Rightarrow> string" where
  "path_join a b =
     (if startswith b ''/'' then b
      else if a = [] \<or> endswith a ''/'' then a @ b
      else a @ ''/'' @ b)"

text \<open>\<open>os.path.dirname(p)\<close>\<close>

definition dirname :: "string \<Rightarrow> string" where
  "dirname p =
     (let i = (case rfind p ''/'' of None \<Rightarrow> 0 | Some j \<Rightarrow> j + 1);
          head = take i p
      in if head \<noteq> [] \<and> head \<noteq> replicate (length head) (CHR ''/'')
         then rstrip_slash head else head)"

section \<open>Dates and instants\<close>

text \<open>
  A naive \<open>datetime\<close>. Instants are seconds since the Unix epoch, as exact rationals;
  the rounding of Python's floats is not modelled.
\<close>

record datetime =
  year :: nat
  month :: nat
  day :: nat
  hour :: nat
  minute :: nat
  second :: nat
  microsecond :: nat

definition is_leap :: "nat \<Rightarrow> bool" where
  "is_leap y = (y mod 4 = 0 \<and> (y mod 100 \<noteq> 0 \<or> y mod 400 = 0))"

definition days_in_month :: "nat \<Rightarrow> nat \<Rightarrow> nat" where
  "days_in_month y m =
     (if m = 2 \<and> is_leap y then 29
      else [0, 31, 28, 31, 30, 31, 30, 31, 31, 30, 31, 30, 31] ! m)"

definition days_before_year :: "nat \<Rightarrow> int" where
  "days_before_year y =
     (let p = int y - 1 in p * 365 + p div 4 - p div 100 + p div 400)"

definition days_before_month :: "nat \<Rightarrow> nat \<Rightarrow> int" where
  "days_before_month y m =
     int ([0, 0, 31, 59, 90, 120, 151, 181, 212, 243, 273, 304, 334] ! m)
       + (if 2 < m \<and> is_leap y then 1 else 0)"

definition ymd2ord :: "nat \<Rightarrow> nat \<Rightarrow> nat \<Rightarrow> int" where
  "ymd2ord y m d = days_before_year y + days_before_month y m + int d"

text \<open>The checks of the \<open>datetime\<close> constructor; \<open>None\<close> is its \<open>ValueError\<close>.\<close>

definition mk_datetime ::
  "nat \<Rightarrow> nat \<Rightarrow> nat \<Rightarrow> nat \<Rightarrow> nat \<Rightarrow> nat \<Rightarrow> nat \<Rightarrow> datetime option" where
  "mk_datetime y m d H M S f =
     (if 1 \<le> y \<and> y \<le> 9999 \<and> 1 \<le> m \<and> m \<le> 12 \<and> 1 \<le> d \<and> d \<le> days_in_month y m
         \<and> H < 24 \<and> M < 60 \<and> S < 60 \<and> f < 1000000
      then Some \<lparr>year = y, month = m, day = d, hour = H, minute = M, second = S,
                 microsecond = f\<rparr>
      else None)"

definition valid_datetime :: "datetime \<Rightarrow> bool" where
  "valid_datetime dt =
     (mk_datetime (year dt) (month dt) (day dt) (hour dt) (minute dt) (second dt)
        (microsecond dt) = Some dt)"

text \<open>
  Seconds from 1970-01-01T00:00:00 to the civil time \<open>dt\<close> read in a zone that is
  \<open>off\<close> seconds east of UTC. \<open>dt.timestamp()\<close> of a naive \<open>datetime\<close> reads it in
  the local zone of the machine, taken here as a fixed offset.
\<close>

definition civil_seconds :: "datetime \<Rightarrow> int" where
  "civil_seconds dt =
     (ymd2ord (year dt) (month dt) (day dt) - 719163) * 86400
       + int (hour dt) * 3600 + int (minute dt) * 60 + int (second dt)"

definition timestamp :: "int \<Rightarrow> datetime \<Rightarrow> rat" where
  "timestamp off dt =
     of_int (civil_seconds dt - off) + of_nat (microsecond dt) / 1000000"

text \<open>The instant that a UTC \<open>datetime\<close> (the value of \<open>datetime.utcnow()\<close>) denotes.\<close>

definition utc_instant :: "datetime \<Rightarrow> rat" where
  "utc_instant dt = timestamp 0 dt"

section \<open>Formatting and parsing the archive timestamp\<close>

definition digit_char :: "nat \<Rightarrow> char" where
  "digit_char d = ''0123456789'' ! d"

definition is_digit :: "char \<Rightarrow> bool" where
  "is_digit c = (c \<in> set ''0123456789'')"

definition digit_val :: "char \<Rightarrow> nat" where
  "digit_val c = (of_char c :: nat) - 48"

definition num_of :: "string \<Rightarrow> nat" where
  "num_of ds = foldl (\<lambda>a c. 10 * a + digit_val c) 0 ds"

text \<open>\<open>n\<close> in decimal, zero-padded to \<open>w\<close> digits (\<open>%m\<close>, \<open>%d\<close>, \<open>%H\<close>, \<open>%M\<close>, \<open>%S\<close>
  with two digits, \<open>%f\<close> with six, \<open>%Y\<close> with four for the years 1000 to 9999).\<close>

fun zpad :: "nat \<Rightarrow> nat \<Rightarrow> string" where
  "zpad 0 n = []"
| "zpad (Suc w) n = zpad w (n div 10) @ [digit_char (n mod 10)]"

text \<open>\<open>dt.strftime('%Y-%m-%dT%H-%M-%S.%fZ')\<close>\<close>

definition strftime_ts :: "datetime \<Rightarrow> string" where
  "strftime_ts dt =
     zpad 4 (year dt) @ ''-'' @ zpad 2 (month dt) @ ''-'' @ zpad 2 (day dt) @ ''T''
       @ zpad 2 (hour dt) @ ''-'' @ zpad 2 (minute dt) @ ''-'' @ zpad 2 (second dt)
       @ ''.'' @ zpad 6 (microsecond dt) @ ''Z''"

text \<open>
  \<open>datetime.strptime\<close> compiles the format into a regular expression, matched from the start
  of the string case-insensitively by a backtracking matcher; the directives contribute
  \<^item> \<open>%Y\<close>: \<open>\d\d\d\d\<close>
  \<^item> \<open>%m\<close>: \<open>1[0-2]|0[1-9]|[1-9]\<close>
  \<^item> \<open>%d\<close>: \<open>3[0-1]|[1-2]\d|0[1-9]|[1-9]| [1-9]\<close>
  \<^item> \<open>%H\<close>: \<open>2[0-3]|[0-1]\d|\d\<close>
  \<^item> \<open>%M\<close>: \<open>[0-5]\d|\d\<close>
  \<^item> \<open>%S\<close>: \<open>6[0-1]|[0-5]\d|\d\<close>
  \<^item> \<open>%f\<close>: \<open>[0-9]{1,6}\<close>

  A matcher takes the rest of the string and returns the result of the first successful way
  through the expression; each piece is given its continuation, so a failure further on
  makes an earlier alternative be retried, as in the regular expression engine.
\<close>

type_synonym 'a matcher = "string \<Rightarrow> 'a option"

definition orelse :: "'a option \<Rightarrow> 'a option \<Rightarrow> 'a option" where
  "orelse a b = (case a of Some r \<Rightarrow> Some r | None \<Rightarrow> b)"

definition ch :: "(char \<Rightarrow> bool) \<Rightarrow> (char \<Rightarrow> 'a matcher) \<Rightarrow> 'a matcher" where
  "ch P k s = (case s of [] \<Rightarrow> None | c # r \<Rightarrow> if P c then k c r else None)"

definition rng :: "nat \<Rightarrow> nat \<Rightarrow> char \<Rightarrow> bool" where
  "rng lo hi c = (is_digit c \<and> lo \<le> digit_val c \<and> digit_val c \<le> hi)"

definition lit :: "char \<Rightarrow> 'a matcher \<Rightarrow> 'a matcher" where
  "lit c k = ch (\<lambda>x. lower_char x = lower_char c) (\<lambda>_. k)"

definition two :: "(char \<Rightarrow> bool) \<Rightarrow> (char \<Rightarrow> bool) \<Rightarrow> (nat \<Rightarrow> 'a matcher) \<Rightarrow> 'a matcher" where
  "two P Q k = ch P (\<lambda>a. ch Q (\<lambda>b. k (num_of [a, b])))"

definition one :: "(char \<Rightarrow> bool) \<Rightarrow> (nat \<Rightarrow> 'a matcher) \<Rightarrow> 'a matcher" where
  "one P k = ch P (\<lambda>a. k (num_of [a]))"

definition re_Y :: "(nat \<Rightarrow> 'a matcher) \<Rightarrow> 'a matcher" where
  "re_Y k = ch is_digit (\<lambda>a. ch is_digit (\<lambda>b. ch is_digit (\<lambda>c. ch is_digit (\<lambda>d.
              k (num_of [a, b, c, d])))))"

definition re_m :: "(nat \<Rightarrow> 'a matcher) \<Rightarrow> 'a matcher" where
  "re_m k s = orelse (two (rng 1 1) (rng 0 2) k s)
              (orelse (two (rng 0 0) (rng 1 9) k s)
                      (one (rng 1 9) k s))"

definition re_d :: "(nat \<Rightarrow> 'a matcher) \<Rightarrow> 'a matcher" where
  "re_d k s = orelse (two (rng 3 3) (rng 0 1) k s)
              (orelse (two (rng 1 2) is_digit k s)
              (orelse (two (rng 0 0) (rng 1 9) k s)
              (orelse (one (rng 1 9) k s)
                      (ch (\<lambda>c. c = CHR '' '') (\<lambda>_. one (rng 1 9) k) s))))"

definition re_H :: "(nat \<Rightarrow> 'a matcher) \<Rightarrow> 'a matcher" where
  "re_H k s = orelse (two (rng 2 2) (rng 0 3) k s)
              (orelse (two (rng 0 1) is_digit k s)
                      (one is_digit k s))"

definition re_M :: "(nat \<Rightarrow> 'a matcher) \<Rightarrow> 'a matcher" where
  "re_M k s = orelse (two (rng 0 5) is_digit k s) (one is_digit k s)"

definition re_S :: "(nat \<Rightarrow> 'a matcher) \<Rightarrow> 'a matcher" where
  "re_S k s = orelse (two (rng 6 6) (rng 0 1) k s)
              (orelse (two (rng 0 5) is_digit k s)
                      (one is_digit k s))"

text \<open>\<open>[0-9]{1,6}\<close> is greedy: six digits are tried first, then fewer. The continuation
  receives the matched digits.\<close>

definition digits_n :: "nat \<Rightarrow> (string \<Rightarrow> 'a matcher) \<Rightarrow> 'a matcher" where
  "digits_n n k s =
     (if n \<le> length s \<and> list_all is_digit (take n s) then k (take n s) (drop n s) else None)"

definition re_f :: "(string \<Rightarrow> 'a matcher) \<Rightarrow> 'a matcher" where
  "re_f k s = orelse (digits_n 6 k s) (orelse (digits_n 5 k s) (orelse (digits_n 4 k s)
              (orelse (digits_n 3 k s) (orelse (digits_n 2 k s) (digits_n 1 k s)))))"

text \<open>The compiled format; the result is the fields and the unmatched rest.\<close>

definition ts_regex ::
  "(nat \<times> nat \<times> nat \<times> nat \<times> nat \<times> nat \<times> string \<times> string) matcher" where
  "ts_regex =
     re_Y (\<lambda>Y. lit (CHR ''-'') (re_m (\<lambda>m. lit (CHR ''-'') (re_d (\<lambda>d. lit (CHR ''T'')
       (re_H (\<lambda>H. lit (CHR ''-'') (re_M (\<lambda>M. lit (CHR ''-'') (re_S (\<lambda>S. lit (CHR ''.'')
         (re_f (\<lambda>f. lit (CHR ''Z'') (\<lambda>rest. Some (Y, m, d, H, M, S, f, rest)))))))))))))))"

text \<open>
  \<open>datetime.strptime(s, '%Y-%m-%dT%H-%M-%S.%fZ')\<close>; \<open>None\<close> is its \<open>ValueError\<close>: the
  string does not match, unconverted data remains after the match, or the fields are
  not a date and time. The fraction is padded with zeros on the right to six digits.
\<close>

definition strptime_ts :: "string \<Rightarrow> datetime option" where
  "strptime_ts s =
     (case ts_regex s of
        None \<Rightarrow> None
      | Some (Y, m, d, H, M, S, f, rest) \<Rightarrow>
          if rest \<noteq> [] then None
          else mk_datetime Y m d H M S (num_of (f @ replicate (6 - length f) (CHR ''0''))))"

section \<open>The archiver's file name\<close>

text \<open>
  \<open>create_zip_from_folder\<close>, as far as the name of the archive goes: \<open>now\<close> is the value of
  \<open>datetime.utcnow()\<close>. Writing the archive itself is outside this development.
\<close>

definition zip_name :: "string \<Rightarrow> datetime \<Rightarrow> string" where
  "zip_name zip_prefix now =
     (let timestamp = strftime_ts now;
          pfx = (if zip_prefix \<noteq> [] then zip_prefix @ ''_'' else [])
      in pfx @ timestamp @ ''.zip'')"

definition create_zip_from_folder :: "string \<Rightarrow> string \<Rightarrow> datetime \<Rightarrow> string" where
  "create_zip_from_folder output_dir zip_prefix now =
     path_join output_dir (zip_name zip_prefix now)"

section \<open>Retention\<close>

text \<open>
  What \<open>cleanup_old_backups\<close> sees of the machine: the result of \<open>os.listdir\<close>, the
  modification time of a path (\<open>None\<close> when \<open>os.path.getmtime\<close> raises), whether
  \<open>os.remove\<close> of a path succeeds, and the local zone's offset from UTC in seconds.
\<close>

datatype listing = Listed "string list" | FileNotFound | OtherOSError string

record env =
  listdir :: "string \<Rightarrow> listing"
  getmtime :: "string \<Rightarrow> rat option"
  remove_ok :: "string \<Rightarrow> bool"
  utcoffset :: int

datatype event = Removed string | RemoveFailed string

fun attempted :: "event \<Rightarrow> string" where
  "attempted (Removed p) = p"
| "attempted (RemoveFailed p) = p"

text \<open>The list comprehension that selects the candidates.\<close>

definition candidates :: "string \<Rightarrow> string list \<Rightarrow> string list" where
  "candidates pfx names =
     filter (\<lambda>f. endswith (lower f) ''.zip'' \<and> (if pfx \<noteq> [] then startswith f pfx else True))
       names"

definition file_key :: "env \<Rightarrow> string \<Rightarrow> string \<Rightarrow> string \<Rightarrow> rat" where
  "file_key e output_dir pfx fname =
     (let name = (if pfx \<noteq> [] \<and> startswith fname (pfx @ ''_'')
                    then drop (length pfx + 1) fname
                  else if pfx \<noteq> [] \<and> startswith fname pfx
                    then drop (length pfx) fname
                  else fname);
          name = rsplit1_head name ''.zip''
      in case strptime_ts name of
           Some dt \<Rightarrow> timestamp (utcoffset e) dt
         | None \<Rightarrow>
             (case getmtime e (path_join output_dir fname) of
                Some t \<Rightarrow> t
              | None \<Rightarrow> 0))"

text \<open>The value of the variable \<open>name\<close> of \<open>file_key\<close> at the call of \<open>strptime\<close>:
  the file name after the two strips.\<close>

definition name_part :: "string \<Rightarrow> string \<Rightarrow> string" where
  "name_part pfx fname =
     rsplit1_head
       (if pfx \<noteq> [] \<and> startswith fname (pfx @ ''_'') then drop (length pfx + 1) fname
        else if pfx \<noteq> [] \<and> startswith fname pfx then drop (length pfx) fname
        else fname)
       ''.zip''"

text \<open>\<open>xs.sort(key=f, reverse=True)\<close>: the list is reversed, sorted stably in ascending
  order of the key, and reversed again, so that equal keys keep their order.\<close>

definition sort_reverse :: "('a \<Rightarrow> rat) \<Rightarrow> 'a list \<Rightarrow> 'a list" where
  "sort_reverse f xs = rev (sort_key f (rev xs))"

text \<open>The list \<open>files\<close> after the sort, newest first.\<close>

definition sorted_files :: "env \<Rightarrow> string \<Rightarrow> string \<Rightarrow> string list \<Rightarrow> string list" where
  "sorted_files e output_dir pfx names =
     sort_reverse (file_key e output_dir pfx) (candidates pfx names)"

text \<open>The removal loop: a failed \<open>os.remove\<close> is printed and the loop goes on.\<close>

fun remove_loop :: "env \<Rightarrow> string \<Rightarrow> string list \<Rightarrow> event list" where
  "remove_loop e output_dir [] = []"
| "remove_loop e output_dir (fname # rest) =
     (let path = path_join output_dir fname
      in (if remove_ok e path then Removed path else RemoveFailed path)
           # remove_loop e output_dir rest)"

text \<open>
  \<open>cleanup_old_backups\<close>: \<open>Inr\<close> is a normal return with the removals attempted, in order;
  \<open>Inl\<close> is an exception of \<open>os.listdir\<close> other than \<open>FileNotFoundError\<close>, which is not
  caught.
\<close>

definition cleanup_old_backups :: "env \<Rightarrow> string \<Rightarrow> string \<Rightarrow> int \<Rightarrow> string + event list" where
  "cleanup_old_backups e output_dir pfx keep =
     (if keep \<le> 0 then Inr []
      else case listdir e output_dir of
             FileNotFound \<Rightarrow> Inr []
           | OtherOSError msg \<Rightarrow> Inl msg
           | Listed names \<Rightarrow>
               (let files = sorted_files e output_dir pfx names;
                    to_delete = drop (nat keep) files
                in Inr (remove_loop e output_dir to_delete)))"

section \<open>The remote tree walker\<close>

text \<open>
  The remote side as the walker sees it: an entry of a listing is a file, a directory
  with its own entries (name and node, in listing order), or a directory whose listing
  fails. \<open>listdir_attr\<close> is \<open>sftp.listdir_attr\<close>; \<open>None\<close> is its \<open>IOError\<close>.
\<close>

datatype rnode = RFile | RDir "(string \<times> rnode) list" | RDenied

fun listdir_attr :: "rnode \<Rightarrow> (string \<times> rnode) list option" where
  "listdir_attr (RDir entries) = Some entries"
| "listdir_attr RFile = None"
| "listdir_attr RDenied = None"

fun S_ISDIR :: "rnode \<Rightarrow> bool" where
  "S_ISDIR RFile = False"
| "S_ISDIR (RDir entries) = True"
| "S_ISDIR RDenied = True"

text \<open>The local side: whether \<open>os.makedirs\<close> of a path and \<open>sftp.get\<close> of a remote path
  into a local path succeed.\<close>

record wenv =
  makedirs_ok :: "string \<Rightarrow> bool"
  get_ok :: "string \<Rightarrow> string \<Rightarrow> bool"

text \<open>What the walker does to the local file system, in order.\<close>

datatype action = Makedirs string | Get string string

datatype walk_error =
    MakedirsFailed string
  | ListFailed string
  | GetFailed string

fun local_path_of :: "action \<Rightarrow> string" where
  "local_path_of (Makedirs p) = p"
| "local_path_of (Get r p) = p"

text \<open>The result of a run: the actions attempted, and the exception that ended it, if any.\<close>

type_synonym outcome = "action list \<times> walk_error option"

definition download_sftp_file :: "wenv \<Rightarrow> string \<Rightarrow> string \<Rightarrow> outcome" where
  "download_sftp_file w remote_path local_path =
     (let d = dirname local_path
      in if \<not> makedirs_ok w d then ([Makedirs d], Some (MakedirsFailed d))
         else if \<not> get_ok w remote_path local_path
           then ([Makedirs d, Get remote_path local_path], Some (GetFailed remote_path))
         else ([Makedirs d, Get remote_path local_path], None))"

text \<open>
  \<open>download_sftp_dir\<close> and its loop over the entries. An exception ends the loop and the
  calls around it.
\<close>

fun download_sftp_dir :: "wenv \<Rightarrow> rnode \<Rightarrow> string \<Rightarrow> string \<Rightarrow> outcome"
  and download_entries :: "wenv \<Rightarrow> (string \<times> rnode) list \<Rightarrow> string \<Rightarrow> string \<Rightarrow> outcome"
where
  "download_sftp_dir w node remote_dir local_dir =
     (if \<not> makedirs_ok w local_dir
        then ([Makedirs local_dir], Some (MakedirsFailed local_dir))
      else case node of
             RDir entries \<Rightarrow>
               (case download_entries w entries remote_dir local_dir of
                  (acts, err) \<Rightarrow> (Makedirs local_dir # acts, err))
           | _ \<Rightarrow> ([Makedirs local_dir], Some (ListFailed remote_dir)))"
| "download_entries w [] remote_dir local_dir = ([], None)"
| "download_entries w ((name, node) # rest) remote_dir local_dir =
     (if name = ''.'' \<or> name = ''..''
        then download_entries w rest remote_dir local_dir
      else
        (let remote_path = rstrip_slash remote_dir @ ''/'' @ name;
             local_path = path_join local_dir name
         in case (if S_ISDIR node
                    then download_sftp_dir w node remote_path local_path
                    else download_sftp_file w remote_path local_path) of
              (acts, Some err) \<Rightarrow> (acts, Some err)
            | (acts, None) \<Rightarrow>
                (case download_entries w rest remote_dir local_dir of
                   (acts', err') \<Rightarrow> (acts @ acts', err'))))"

text \<open>
  The same walk with every action tagged by the entry it is done for: the names from
  the listing of the remote root down to that entry (none for the target directory
  itself). The recursion, the tests and the paths are those of \<open>download_sftp_dir\<close>;
  only the tags are added.
\<close>

fun download_sftp_dir_tagged ::
    "wenv \<Rightarrow> rnode \<Rightarrow> string list \<Rightarrow> string \<Rightarrow> string
       \<Rightarrow> (string list \<times> action) list \<times> walk_error option"
  and download_entries_tagged ::
    "wenv \<Rightarrow> (string \<times> rnode) list \<Rightarrow> string list \<Rightarrow> string \<Rightarrow> string
       \<Rightarrow> (string list \<times> action) list \<times> walk_error option"
where
  "download_sftp_dir_tagged w node names remote_dir local_dir =
     (if \<not> makedirs_ok w local_dir
        then ([(names, Makedirs local_dir)], Some (MakedirsFailed local_dir))
      else case node of
             RDir entries \<Rightarrow>
               (case download_entries_tagged w entries names remote_dir local_dir of
                  (acts, err) \<Rightarrow> ((names, Makedirs local_dir) # acts, err))
           | _ \<Rightarrow> ([(names, Makedirs local_dir)], Some (ListFailed remote_dir)))"
| "download_entries_tagged w [] names remote_dir local_dir = ([], None)"
| "download_entries_tagged w ((name, node) # rest) names remote_dir local_dir =
     (if name = ''.'' \<or> name = ''..''
        then download_entries_tagged w rest names remote_dir local_dir
      else
        (let remote_path = rstrip_slash remote_dir @ ''/'' @ name;
             local_path = path_join local_dir name
         in case (if S_ISDIR node
                    then download_sftp_dir_tagged w node (names @ [name]) remote_path local_path
                    else (case download_sftp_file w remote_path local_path of
                            (acts, err) \<Rightarrow> (map (Pair (names @ [name])) acts, err))) of
              (acts, Some err) \<Rightarrow> (acts, Some err)
            | (acts, None) \<Rightarrow>
                (case download_entries_tagged w rest names remote_dir local_dir of
                   (acts', err') \<Rightarrow> (acts @ acts', err'))))"

section \<open>Notions used to state the properties\<close>

text \<open>The remote tree without the entries named \<open>.\<close> or \<open>..\<close>, at every level.\<close>

fun without_dots :: "rnode \<Rightarrow> rnode"
  and without_dots_list :: "(string \<times> rnode) list \<Rightarrow> (string \<times> rnode) list"
where
  "without_dots RFile = RFile"
| "without_dots RDenied = RDenied"
| "without_dots (RDir entries) = RDir (without_dots_list entries)"
| "without_dots_list [] = []"
| "without_dots_list ((name, node) # rest) =
     (if name = ''.'' \<or> name = ''..'' then without_dots_list rest
      else (name, without_dots node) # without_dots_list rest)"

text \<open>
  Where a path leads, read lexically: its components, with empty ones and \<open>.\<close> dropped
  and each \<open>..\<close> cancelling the component before it (at the root of an absolute
  path \<open>..\<close> stays at the root; a relative path keeps leading \<open>..\<close>).
\<close>

fun split_slash :: "string \<Rightarrow> string list" where
  "split_slash [] = [[]]"
| "split_slash (c # s) =
     (if c = CHR ''/'' then [] # split_slash s
      else (case split_slash s of [] \<Rightarrow> [[c]] | x # xs \<Rightarrow> (c # x) # xs))"

definition is_abs :: "string \<Rightarrow> bool" where
  "is_abs p = startswith p ''/''"

definition resolve_step :: "bool \<Rightarrow> string list \<Rightarrow> string \<Rightarrow> string list" where
  "resolve_step absolute stack c =
     (if c = [] \<or> c = ''.'' then stack
      else if c = ''..'' then
        (if stack \<noteq> [] \<and> last stack \<noteq> ''..'' then butlast stack
         else if absolute then stack
         else stack @ [c])
      else stack @ [c])"

definition resolve :: "string \<Rightarrow> string list" where
  "resolve p = foldl (resolve_step (is_abs p)) [] (split_slash p)"

text \<open>\<open>sep in s\<close>: \<open>sep\<close> occurs somewhere in \<open>s\<close>.\<close>

fun contains :: "string \<Rightarrow> string \<Rightarrow> bool" where
  "contains [] sep = (sep = [])"
| "contains (c # s) sep = (startswith (c # s) sep \<or> contains s sep)"

text \<open>
  \<open>p\<close> lies under the directory \<open>target\<close> (or is \<open>target\<close> itself): both are absolute or
  both relative, \<open>p\<close> leads through \<open>target\<close>, and what follows \<open>target\<close> in it does not
  climb (\<open>../evil\<close> is not under \<open>.\<close>, nor \<open>../../x\<close> under \<open>..\<close>).
\<close>

definition lies_under :: "string \<Rightarrow> string \<Rightarrow> bool" where
  "lies_under target p =
     (is_abs p = is_abs target
      \<and> prefix (resolve target) (resolve p)
      \<and> ''..'' \<notin> set (drop (length (resolve target)) (resolve p)))"

section \<open>Example machines\<close>

text \<open>
  A backup directory with two archives named by the archiver, one whose name holds no
  timestamp and a file that is no archive, on a machine in the UTC zone; the oldest
  archive cannot be removed.
\<close>

definition backup_names :: "string list" where
  "backup_names =
     [''a_2024-01-01T00-00-00.000000Z.zip'', ''a_2024-06-01T00-00-00.000000Z.zip'',
      ''a_garbage.zip'', ''notes.txt'']"

definition backup_env :: env where
  "backup_env =
     \<lparr>listdir = (\<lambda>d. if d = ''/backups'' then Listed backup_names else FileNotFound),
      getmtime = (\<lambda>p. Some 1000),
      remove_ok = (\<lambda>p. p \<noteq> ''/backups/a_2024-01-01T00-00-00.000000Z.zip''),
      utcoffset = 0\<rparr>"

text \<open>
  A backup directory on a machine whose clock once stood before 1970: one archive
  named by the archiver then, and one file whose name holds no timestamp and whose
  modification time cannot be read.
\<close>

definition old_names :: "string list" where
  "old_names = [''a_1969-12-31T00-00-00.000000Z.zip'', ''a_garbage.zip'']"

definition old_env :: env where
  "old_env =
     \<lparr>listdir = (\<lambda>d. if d = ''/backups'' then Listed old_names else FileNotFound),
      getmtime = (\<lambda>p. None),
      remove_ok = (\<lambda>p. True),
      utcoffset = 0\<rparr>"

text \<open>The same machine in a zone two hours east of UTC.\<close>

definition east_env :: env where
  "east_env = backup_env\<lparr>utcoffset := 7200\<rparr>"

text \<open>The instant 2024-06-01T00:00:00 UTC, as \<open>datetime.utcnow()\<close> returns it.\<close>

definition june_first :: datetime where
  "june_first = \<lparr>year = 2024, month = 6, day = 1, hour = 0, minute = 0, second = 0,
                   microsecond = 0\<rparr>"

text \<open>A local side on which every operation succeeds.\<close>

definition ok_wenv :: wenv where
  "ok_wenv = \<lparr>makedirs_ok = (\<lambda>p. True), get_ok = (\<lambda>r p. True)\<rparr>"

text \<open>The remote tree \<open>/data\<close> with \<open>f1.txt\<close> and \<open>sub/f2.txt\<close>, listed by a server that
  reports \<open>.\<close> and \<open>..\<close> as well.\<close>

definition data_tree :: rnode where
  "data_tree =
     RDir [(''.'', RDir []), (''..'', RDir []), (''f1.txt'', RFile),
           (''sub'', RDir [(''.'', RDir []), (''..'', RDir []), (''f2.txt'', RFile)])]"

text \<open>A listing by a server that reports names with path separators.\<close>

definition hostile_tree :: rnode where
  "hostile_tree = RDir [(''../evil'', RFile), (''/etc/passwd'', RFile)]"

text \<open>A listing with one directory name that climbs, a file below it, and a file beside it.\<close>

definition mixed_tree :: rnode where
  "mixed_tree = RDir [(''../b'', RDir [(''x'', RFile)]), (''ok.txt'', RFile)]"

section \<open>Facts about the timestamp parser\<close>

subsection \<open>What a successful match says about the string\<close>

lemma orelse_SomeE:
  assumes "orelse a b = Some r"
  obtains "a = Some r" | "b = Some r"
  using assms by (auto simp: orelse_def split: option.splits)

lemma ch_SomeE:
  assumes "ch P k s = Some r"
  obtains c s' where "s = c # s'" "P c" "k c s' = Some r"
  using assms by (auto simp: ch_def split: list.splits if_splits)

lemma lit_SomeE:
  assumes "lit c k s = Some r"
  obtains x s' where "s = x # s'" "lower_char x = lower_char c" "k s' = Some r"
  using assms by (auto simp: lit_def ch_def split: list.splits if_splits)

lemma two_SomeE:
  assumes "two P Q k s = Some r"
  obtains v s' where "suffix s' s" "k v s' = Some r"
proof -
  from assms obtain a b s' where "s = a # b # s'" "k (num_of [a, b]) s' = Some r"
    by (auto simp: two_def ch_def split: list.splits if_splits)
  then show thesis
    using that[of s' "num_of [a, b]"] by (simp add: suffix_Cons)
qed

lemma one_SomeE:
  assumes "one P k s = Some r"
  obtains v s' where "suffix s' s" "k v s' = Some r"
proof -
  from assms obtain a s' where "s = a # s'" "k (num_of [a]) s' = Some r"
    by (auto simp: one_def ch_def split: list.splits if_splits)
  then show thesis
    using that[of s' "num_of [a]"] by (simp add: suffix_Cons)
qed

lemma re_Y_SomeE:
  assumes "re_Y k s = Some r"
  obtains v s' where "suffix s' s" "k v s' = Some r"
proof -
  from assms obtain a b c d s' where "s = a # b # c # d # s'" "k (num_of [a, b, c, d]) s' = Some r"
    by (auto simp: re_Y_def ch_def split: list.splits if_splits)
  then show thesis
    using that[of s' "num_of [a, b, c, d]"] by (simp add: suffix_Cons)
qed

lemma re_m_SomeE:
  assumes "re_m k s = Some r"
  obtains v s' where "suffix s' s" "k v s' = Some r"
  using assms unfolding re_m_def by (elim orelse_SomeE two_SomeE one_SomeE) blast+

lemma sp_one_SomeE:
  assumes "ch (\<lambda>c. c = CHR '' '') (\<lambda>_. one P k) s = Some r"
  obtains v s' where "suffix s' s" "k v s' = Some r"
proof -
  from assms obtain a b s' where "s = a # b # s'" "k (num_of [b]) s' = Some r"
    by (auto simp: one_def ch_def split: list.splits if_splits)
  then show thesis
    using that[of s' "num_of [b]"] by (simp add: suffix_Cons)
qed

lemma re_d_SomeE:
  assumes "re_d k s = Some r"
  obtains v s' where "suffix s' s" "k v s' = Some r"
  using assms unfolding re_d_def
  by (elim orelse_SomeE two_SomeE one_SomeE sp_one_SomeE) blast+

lemma re_H_SomeE:
  assumes "re_H k s = Some r"
  obtains v s' where "suffix s' s" "k v s' = Some r"
  using assms unfolding re_H_def by (elim orelse_SomeE two_SomeE one_SomeE) blast+

lemma re_M_SomeE:
  assumes "re_M k s = Some r"
  obtains v s' where "suffix s' s" "k v s' = Some r"
  using assms unfolding re_M_def by (elim orelse_SomeE two_SomeE one_SomeE) blast+

lemma re_S_SomeE:
  assumes "re_S k s = Some r"
  obtains v s' where "suffix s' s" "k v s' = Some r"
  using assms unfolding re_S_def by (elim orelse_SomeE two_SomeE one_SomeE) blast+

lemma digits_n_SomeE:
  assumes "digits_n n k s = Some r"
  obtains v s' where "suffix s' s" "k v s' = Some r"
  using assms that[of "drop n s" "take n s"]
  by (auto simp: digits_n_def suffix_drop split: if_splits)

lemma re_f_SomeE:
  assumes "re_f k s = Some r"
  obtains v s' where "suffix s' s" "k v s' = Some r"
  using assms unfolding re_f_def by (elim orelse_SomeE digits_n_SomeE) blast+

lemma lit_suffixE:
  assumes "lit c k s = Some r"
  obtains s' where "suffix s' s" "k s' = Some r"
  using assms by (elim lit_SomeE) (auto simp: suffix_Cons)

lemma suffix_last:
  assumes "suffix s' s" "s' \<noteq> []"
  shows "s \<noteq> [] \<and> last s = last s'"
  using assms by (auto simp: suffix_def)

lemma ts_regex_ends_with_Z:
  assumes "ts_regex s = Some (Y, m, d, H, M, S, f, [])"
  shows "s \<noteq> [] \<and> lower_char (last s) = CHR ''z''"
proof -
  define G :: "(nat \<times> nat \<times> nat \<times> nat \<times> nat \<times> nat \<times> string \<times> string) matcher \<Rightarrow> bool"
    where "G p \<longleftrightarrow> (\<forall>s Y m d H M S f. p s = Some (Y, m, d, H, M, S, f, [])
              \<longrightarrow> s \<noteq> [] \<and> lower_char (last s) = CHR ''z'')" for p
  have step: "G p" if "\<And>s r. p s = Some r \<Longrightarrow> \<exists>s' q. suffix s' s \<and> G q \<and> q s' = Some r" for p
    unfolding G_def
  proof (intro allI impI)
    fix s Y m d H M S f
    assume "p s = Some (Y, m, d, H, M, S, f, [])"
    from that[OF this] obtain s' q where "suffix s' s" "G q" "q s' = Some (Y, m, d, H, M, S, f, [])"
      by blast
    then show "s \<noteq> [] \<and> lower_char (last s) = CHR ''z''"
      using suffix_last[of s' s] by (auto simp: G_def)
  qed
  have G_lit: "G (lit c k)" if "G k" for c k
    by (rule step) (use that in \<open>blast elim: lit_suffixE\<close>)
  have G_Y: "G (re_Y k)" if "\<And>v. G (k v)" for k
    by (rule step) (use that in \<open>blast elim: re_Y_SomeE\<close>)
  have G_m: "G (re_m k)" if "\<And>v. G (k v)" for k
    by (rule step) (use that in \<open>blast elim: re_m_SomeE\<close>)
  have G_d: "G (re_d k)" if "\<And>v. G (k v)" for k
    by (rule step) (use that in \<open>blast elim: re_d_SomeE\<close>)
  have G_H: "G (re_H k)" if "\<And>v. G (k v)" for k
    by (rule step) (use that in \<open>blast elim: re_H_SomeE\<close>)
  have G_M: "G (re_M k)" if "\<And>v. G (k v)" for k
    by (rule step) (use that in \<open>blast elim: re_M_SomeE\<close>)
  have G_S: "G (re_S k)" if "\<And>v. G (k v)" for k
    by (rule step) (use that in \<open>blast elim: re_S_SomeE\<close>)
  have G_f: "G (re_f k)" if "\<And>v. G (k v)" for k
    by (rule step) (use that in \<open>blast elim: re_f_SomeE\<close>)
  have G_Z: "G (lit (CHR ''Z'') (\<lambda>rest. Some (Y, m, d, H, M, S, f, rest)))" for Y m d H M S f
    unfolding G_def by (auto elim!: lit_SomeE simp: lower_char_def)
  have "G ts_regex"
    unfolding ts_regex_def
    by (intro G_Y G_m G_d G_H G_M G_S G_f G_Z G_lit)
  with assms show ?thesis
    by (simp add: G_def)
qed

lemma strptime_ts_ends_with_Z:
  assumes "strptime_ts s = Some dt"
  shows "s \<noteq> [] \<and> lower_char (last s) = CHR ''z''"
  using assms ts_regex_ends_with_Z[of s]
  by (auto simp: strptime_ts_def split: option.splits prod.splits if_splits)

section \<open>Facts about retention\<close>

lemma file_key_name_part:
  "file_key e d pfx fname =
     (case strptime_ts (name_part pfx fname) of
        Some dt \<Rightarrow> timestamp (utcoffset e) dt
      | None \<Rightarrow> (case getmtime e (path_join d fname) of Some t \<Rightarrow> t | None \<Rightarrow> 0))"
  by (simp add: file_key_def name_part_def Let_def)

lemma sort_reverse_mset: "mset (sort_reverse f xs) = mset xs"
  by (simp add: sort_reverse_def)

lemma sort_reverse_length: "length (sort_reverse f xs) = length xs"
  by (simp add: sort_reverse_def)

lemma sort_reverse_sorted: "sorted_wrt (\<lambda>a b. f b \<le> f a) (sort_reverse f xs)"
proof -
  have "sorted (map f (sort_key f (rev xs)))" by (rule sorted_sort_key)
  then have "sorted_wrt (\<lambda>a b. f a \<le> f b) (sort_key f (rev xs))"
    by (simp add: sorted_map)
  then show ?thesis
    by (simp add: sort_reverse_def sorted_wrt_rev)
qed

lemma remove_loop_attempted: "map attempted (remove_loop e d fs) = map (path_join d) fs"
  by (induction fs) (simp_all add: Let_def)

lemma remove_loop_length: "length (remove_loop e d fs) = length fs"
  by (induction fs) (simp_all add: Let_def)

lemma remove_loop_outcome:
  "ev \<in> set (remove_loop e d fs) \<Longrightarrow>
     ev = (if remove_ok e (attempted ev) then Removed (attempted ev)
           else RemoveFailed (attempted ev))"
  by (induction fs) (auto simp: Let_def split: if_splits)

section \<open>The example machine, evaluated\<close>

lemmas str_defs = startswith_def endswith_def lower_def lower_char_def rsplit1_head_def

lemma backup_candidates:
  "candidates ''a'' backup_names =
     [''a_2024-01-01T00-00-00.000000Z.zip'', ''a_2024-06-01T00-00-00.000000Z.zip'',
      ''a_garbage.zip'']"
  by (simp add: candidates_def backup_names_def str_defs)

lemmas parse_defs = strptime_ts_def ts_regex_def re_Y_def re_m_def re_d_def re_H_def re_M_def
  re_S_def re_f_def lit_def ch_def two_def one_def orelse_def rng_def is_digit_def digit_val_def
  num_of_def digits_n_def mk_datetime_def days_in_month_def

lemmas time_defs = timestamp_def civil_seconds_def ymd2ord_def days_before_year_def
  days_before_month_def is_leap_def

lemma key_january:
  "file_key backup_env ''/backups'' ''a'' ''a_2024-01-01T00-00-00.000000Z.zip'' = 1704067200"
  by (simp add: file_key_name_part name_part_def str_defs parse_defs time_defs backup_env_def)

lemma key_june:
  "file_key backup_env ''/backups'' ''a'' ''a_2024-06-01T00-00-00.000000Z.zip'' = 1717200000"
  by (simp add: file_key_name_part name_part_def str_defs parse_defs time_defs backup_env_def)

lemma key_garbage:
  "file_key backup_env ''/backups'' ''a'' ''a_garbage.zip'' = 1000"
  by (simp add: file_key_name_part name_part_def str_defs parse_defs backup_env_def)

lemma backup_sorted:
  "sorted_files backup_env ''/backups'' ''a'' backup_names =
     [''a_2024-06-01T00-00-00.000000Z.zip'', ''a_2024-01-01T00-00-00.000000Z.zip'',
      ''a_garbage.zip'']"
  by (simp add: sorted_files_def backup_candidates sort_reverse_def key_january key_june key_garbage)

lemma backup_cleanup:
  "cleanup_old_backups backup_env ''/backups'' ''a'' 1 =
     Inr [RemoveFailed ''/backups/a_2024-01-01T00-00-00.000000Z.zip'',
          Removed ''/backups/a_garbage.zip'']"
proof -
  have "listdir backup_env ''/backups'' = Listed backup_names"
    and "remove_ok backup_env = (\<lambda>p. p \<noteq> ''/backups/a_2024-01-01T00-00-00.000000Z.zip'')"
    by (simp_all add: backup_env_def)
  then show ?thesis
    by (simp add: cleanup_old_backups_def backup_sorted Let_def path_join_def str_defs)
qed

section \<open>The claims about retention\<close>

text \<open>
  C1. When the directory can be listed and \<open>0 < k < candidateCount\<close>, the retention
  operation returns normally after attempting the removal of exactly
  \<open>candidateCount - k\<close> files. The files it keeps are the first \<open>k\<close> of the candidates
  sorted by sortKey, newest first: kept and deleted files together are the candidates,
  there are \<open>k\<close> kept files, in descending order of sortKey, and no deleted file has a
  larger sortKey than a kept one.
\<close>

theorem retention_keeps_newest:
  assumes ls: "listdir e d = Listed names"
    and k: "0 < k" "k < int (length (candidates pfx names))"
  shows "\<exists>evs. cleanup_old_backups e d pfx k = Inr evs
           \<and> length evs = length (candidates pfx names) - nat k
           \<and> (let files = sorted_files e d pfx names;
                   kept = take (nat k) files;
                   deleted = drop (nat k) files
               in map attempted evs = map (path_join d) deleted
                  \<and> length kept = nat k
                  \<and> mset kept + mset deleted = mset (candidates pfx names)
                  \<and> sorted_wrt (\<lambda>a b. file_key e d pfx b \<le> file_key e d pfx a) kept
                  \<and> (\<forall>a \<in> set kept. \<forall>b \<in> set deleted.
                        file_key e d pfx b \<le> file_key e d pfx a))"
proof -
  let ?key = "file_key e d pfx"
  let ?files = "sorted_files e d pfx names"
  have len: "length ?files = length (candidates pfx names)"
    by (simp add: sorted_files_def sort_reverse_length)
  have run: "cleanup_old_backups e d pfx k = Inr (remove_loop e d (drop (nat k) ?files))"
    using ls k by (simp add: cleanup_old_backups_def Let_def)
  have srt: "sorted_wrt (\<lambda>a b. ?key b \<le> ?key a) (take (nat k) ?files @ drop (nat k) ?files)"
    by (simp add: sorted_files_def sort_reverse_sorted)
  have ms: "mset (take (nat k) ?files) + mset (drop (nat k) ?files) = mset (candidates pfx names)"
    by (simp add: union_code sorted_files_def sort_reverse_mset flip: mset_append)
  have lk: "length (take (nat k) ?files) = nat k"
    using k len by simp
  from srt have "sorted_wrt (\<lambda>a b. ?key b \<le> ?key a) (take (nat k) ?files)"
    and "\<forall>a \<in> set (take (nat k) ?files). \<forall>b \<in> set (drop (nat k) ?files). ?key b \<le> ?key a"
    unfolding sorted_wrt_append by blast+
  with run ms lk len show ?thesis
    by (simp add: Let_def remove_loop_attempted remove_loop_length)
qed

theorem retention_keeps_newest_witness:
  "listdir backup_env ''/backups'' = Listed backup_names
   \<and> (0 :: int) < 1 \<and> 1 < int (length (candidates ''a'' backup_names))
   \<and> (\<exists>evs. cleanup_old_backups backup_env ''/backups'' ''a'' 1 = Inr evs
         \<and> length evs = length (candidates ''a'' backup_names) - nat 1
         \<and> (let files = sorted_files backup_env ''/backups'' ''a'' backup_names;
                 kept = take (nat 1) files;
                 deleted = drop (nat 1) files
             in map attempted evs = map (path_join ''/backups'') deleted
                \<and> length kept = nat 1
                \<and> mset kept + mset deleted = mset (candidates ''a'' backup_names)
                \<and> sorted_wrt (\<lambda>a b. file_key backup_env ''/backups'' ''a'' b
                                      \<le> file_key backup_env ''/backups'' ''a'' a) kept
                \<and> (\<forall>a \<in> set kept. \<forall>b \<in> set deleted.
                      file_key backup_env ''/backups'' ''a'' b
                        \<le> file_key backup_env ''/backups'' ''a'' a)))"
proof -
  have h1: "listdir backup_env ''/backups'' = Listed backup_names"
    by (simp add: backup_env_def)
  have h2: "(0 :: int) < 1"
    by simp
  have h3: "1 < int (length (candidates ''a'' backup_names))"
    by (simp add: backup_candidates)
  from h1 h2 h3 retention_keeps_newest[OF h1 h2 h3] show ?thesis
    by (intro conjI)
qed

text \<open>
  C5. With a keep-count \<open>\<le> 0\<close> the retention operation returns at once without any
  removal, whatever the directory holds and whether or not it can be listed.
\<close>

theorem keep_nonpositive_deletes_nothing:
  "keep \<le> 0 \<Longrightarrow> cleanup_old_backups e d pfx keep = Inr []"
  by (simp add: cleanup_old_backups_def)

theorem keep_nonpositive_deletes_nothing_witness:
  "(0 :: int) \<le> 0 \<and> candidates ''a'' backup_names \<noteq> []
   \<and> listdir backup_env ''/backups'' = Listed backup_names
   \<and> cleanup_old_backups backup_env ''/backups'' ''a'' 0 = Inr []"
  using keep_nonpositive_deletes_nothing[of 0 backup_env "''/backups''" "''a''"]
  by (simp add: backup_candidates backup_env_def)

text \<open>
  C7. When the directory can be listed and the keep-count is positive, the retention
  operation returns normally and has attempted the removal of every file beyond the
  first \<open>keep\<close> of the sorted candidates, in order, whether or not the removals before
  it succeeded; each attempt is reported as done or as failed.
\<close>

theorem failed_removal_does_not_abort:
  assumes "listdir e d = Listed names" "0 < keep"
  shows "\<exists>evs. cleanup_old_backups e d pfx keep = Inr evs
           \<and> map attempted evs
               = map (path_join d) (drop (nat keep) (sorted_files e d pfx names))
           \<and> (\<forall>ev \<in> set evs.
                 ev = (if remove_ok e (attempted ev) then Removed (attempted ev)
                       else RemoveFailed (attempted ev)))"
proof -
  let ?evs = "remove_loop e d (drop (nat keep) (sorted_files e d pfx names))"
  have "cleanup_old_backups e d pfx keep = Inr ?evs"
    using assms by (simp add: cleanup_old_backups_def Let_def)
  moreover have "map attempted ?evs
      = map (path_join d) (drop (nat keep) (sorted_files e d pfx names))"
    by (rule remove_loop_attempted)
  moreover have "\<forall>ev \<in> set ?evs.
      ev = (if remove_ok e (attempted ev) then Removed (attempted ev)
            else RemoveFailed (attempted ev))"
    by (blast dest: remove_loop_outcome)
  ultimately show ?thesis
    by blast
qed

theorem failed_removal_does_not_abort_witness:
  "listdir backup_env ''/backups'' = Listed backup_names \<and> (0 :: int) < 1
   \<and> \<not> remove_ok backup_env ''/backups/a_2024-01-01T00-00-00.000000Z.zip''
   \<and> cleanup_old_backups backup_env ''/backups'' ''a'' 1 =
        Inr [RemoveFailed ''/backups/a_2024-01-01T00-00-00.000000Z.zip'',
             Removed ''/backups/a_garbage.zip'']
   \<and> (\<exists>evs. cleanup_old_backups backup_env ''/backups'' ''a'' 1 = Inr evs
         \<and> map attempted evs
             = map (path_join ''/backups'')
                 (drop (nat 1) (sorted_files backup_env ''/backups'' ''a'' backup_names))
         \<and> (\<forall>ev \<in> set evs.
               ev = (if remove_ok backup_env (attempted ev) then Removed (attempted ev)
                     else RemoveFailed (attempted ev))))"
proof -
  have h1: "listdir backup_env ''/backups'' = Listed backup_names"
    by (simp add: backup_env_def)
  have h2: "(0 :: int) < 1"
    by simp
  have h3: "\<not> remove_ok backup_env ''/backups/a_2024-01-01T00-00-00.000000Z.zip''"
    by (simp add: backup_env_def)
  from h1 h2 h3 backup_cleanup failed_removal_does_not_abort[OF h1 h2, where pfx = "''a''"]
  show ?thesis
    by (intro conjI)
qed

text \<open>
  C9. When the directory does not exist, the retention operation returns normally
  without any removal, for every prefix and keep-count.
\<close>

theorem missing_directory_is_noop:
  "listdir e d = FileNotFound \<Longrightarrow> cleanup_old_backups e d pfx keep = Inr []"
  by (simp add: cleanup_old_backups_def)

theorem missing_directory_is_noop_witness:
  "listdir backup_env ''/nowhere'' = FileNotFound
   \<and> cleanup_old_backups backup_env ''/nowhere'' ''a'' 3 = Inr []"
proof -
  have h: "listdir backup_env ''/nowhere'' = FileNotFound"
    by (simp add: backup_env_def)
  from h missing_directory_is_noop[OF h, where pfx = "''a''" and keep = 3] show ?thesis
    by (intro conjI)
qed

section \<open>Facts about the strips\<close>

lemma startswith_length:
  assumes "startswith s p"
  shows "length p \<le> length s"
proof -
  from assms have "length (take (length p) s) = length p"
    by (simp add: startswith_def)
  then show ?thesis
    by simp
qed

lemma rfind_bound: "rfind s sep = Some i \<Longrightarrow> i + length sep \<le> length s"
proof (induction s arbitrary: i)
  case Nil
  then show ?case by (simp split: if_splits)
next
  case (Cons c s)
  show ?case
  proof (cases "rfind s sep")
    case None
    with Cons.prems have "startswith (c # s) sep" "i = 0"
      by (simp_all split: if_splits)
    with startswith_length[of "c # s" sep] show ?thesis
      by simp
  next
    case (Some j)
    with Cons.prems have "i = Suc j"
      by simp
    with Cons.IH[OF Some] show ?thesis
      by simp
  qed
qed

lemma rfind_suffix:
  assumes "sep \<noteq> []"
  shows "rfind (t @ sep) sep = Some (length t)"
proof (induction t)
  case Nil
  from assms obtain c s' where sep: "sep = c # s'"
    by (cases sep) auto
  have "rfind s' sep = None"
  proof (cases "rfind s' sep")
    case (Some i)
    from rfind_bound[OF this] sep show ?thesis by simp
  qed simp
  with sep show ?case
    by (simp add: startswith_def)
next
  case (Cons a t)
  then show ?case by simp
qed

lemma rsplit1_head_suffix: "sep \<noteq> [] \<Longrightarrow> rsplit1_head (t @ sep) sep = t"
  by (simp add: rsplit1_head_def rfind_suffix)

lemma rfind_None_iff: "rfind s sep = None \<longleftrightarrow> \<not> contains s sep"
  by (induction s) (auto split: option.splits)

lemma contains_drop: "sep \<noteq> [] \<Longrightarrow> contains (drop n s) sep \<Longrightarrow> contains s sep"
proof (induction s arbitrary: n)
  case Nil
  then show ?case by simp
next
  case (Cons a s)
  then show ?case by (cases n) auto
qed

lemma rsplit1_head_absent: "\<not> contains s sep \<Longrightarrow> rsplit1_head s sep = s"
  using rfind_None_iff[of s sep] by (simp add: rsplit1_head_def)

lemma endswith_lower_zip_last:
  assumes "endswith (lower s) ''.zip''"
  shows "s \<noteq> [] \<and> lower_char (last s) = CHR ''p''"
proof -
  from assms have len: "4 \<le> length s" and d: "drop (length s - 4) (lower s) = ''.zip''"
    by (simp_all add: endswith_def lower_def eval_nat_numeral)
  from len have ne: "s \<noteq> []" by auto
  from len have "last (drop (length s - 4) (lower s)) = last (lower s)"
    by (simp add: lower_def)
  with d have "last (lower s) = CHR ''p''" by simp
  with ne show ?thesis by (simp add: lower_def last_map)
qed

lemma name_part_absent:
  assumes "\<not> contains fname ''.zip''"
  shows "\<exists>n. name_part pfx fname = drop n fname"
proof -
  have "\<not> contains (drop n fname) ''.zip''" for n
    using assms contains_drop[of "''.zip''" n fname] by auto
  then have r: "rsplit1_head (drop n fname) ''.zip'' = drop n fname" for n
    by (rule rsplit1_head_absent)
  consider (underscore) "pfx \<noteq> [] \<and> startswith fname (pfx @ ''_'')"
    | (bare) "\<not> (pfx \<noteq> [] \<and> startswith fname (pfx @ ''_''))" "pfx \<noteq> [] \<and> startswith fname pfx"
    | (neither) "\<not> (pfx \<noteq> [] \<and> startswith fname (pfx @ ''_''))" "\<not> (pfx \<noteq> [] \<and> startswith fname pfx)"
    by blast
  then show ?thesis
  proof cases
    case underscore
    then have "name_part pfx fname = drop (length pfx + 1) fname"
      using r[of "length pfx + 1"] by (simp add: name_part_def)
    then show ?thesis ..
  next
    case bare
    then have "name_part pfx fname = drop (length pfx) fname"
      using r[of "length pfx"] by (simp add: name_part_def)
    then show ?thesis ..
  next
    case neither
    then have "name_part pfx fname = drop 0 fname"
      using r[of 0] by (auto simp: name_part_def)
    then show ?thesis ..
  qed
qed

lemma uppercase_parse_fails:
  assumes "endswith (lower fname) ''.zip''" "\<not> contains fname ''.zip''"
  shows "strptime_ts (name_part pfx fname) = None"
proof (rule ccontr)
  assume "strptime_ts (name_part pfx fname) \<noteq> None"
  then obtain dt where "strptime_ts (name_part pfx fname) = Some dt" by auto
  from strptime_ts_ends_with_Z[OF this]
  have ne: "name_part pfx fname \<noteq> []" and z: "lower_char (last (name_part pfx fname)) = CHR ''z''"
    by simp_all
  from name_part_absent[OF assms(2)] obtain n where n: "name_part pfx fname = drop n fname"
    by blast
  with ne have "last (name_part pfx fname) = last fname"
    by simp
  with z endswith_lower_zip_last[OF assms(1)] show False
    by simp
qed

section \<open>The claims about the sort key\<close>

lemma old_keys:
  "file_key old_env ''/backups'' ''a'' ''a_1969-12-31T00-00-00.000000Z.zip'' = - 86400"
  "file_key old_env ''/backups'' ''a'' ''a_garbage.zip'' = 0"
  by (simp_all add: file_key_name_part name_part_def str_defs parse_defs time_defs old_env_def)

lemma old_cleanup:
  "cleanup_old_backups old_env ''/backups'' ''a'' 1 =
     Inr [Removed ''/backups/a_1969-12-31T00-00-00.000000Z.zip'']"
proof -
  have "listdir old_env ''/backups'' = Listed old_names" and "remove_ok old_env = (\<lambda>p. True)"
    by (simp_all add: old_env_def)
  moreover have "candidates ''a'' old_names = old_names"
    by (simp add: candidates_def old_names_def str_defs)
  moreover have "sorted_files old_env ''/backups'' ''a'' old_names =
      [''a_garbage.zip'', ''a_1969-12-31T00-00-00.000000Z.zip'']"
    unfolding sorted_files_def \<open>candidates ''a'' old_names = old_names\<close>
    by (simp add: old_names_def sort_reverse_def old_keys)
  ultimately show ?thesis
    by (simp add: cleanup_old_backups_def Let_def path_join_def str_defs)
qed

text \<open>
  C3, as stated, fails: the key of a file with neither a timestamp in its name nor a
  readable modification time is 0, which is not the oldest possible key. An archive
  named for an instant before 1970 has a negative key, so the unreadable file ranks
  above it and, with one file to keep, it is the archive with the timestamp that is
  removed.
\<close>

theorem epoch_fallback_not_oldest:
  "strptime_ts (name_part ''a'' ''a_garbage.zip'') = None
   \<and> getmtime old_env (path_join ''/backups'' ''a_garbage.zip'') = None
   \<and> strptime_ts (name_part ''a'' ''a_1969-12-31T00-00-00.000000Z.zip'') \<noteq> None
   \<and> file_key old_env ''/backups'' ''a'' ''a_1969-12-31T00-00-00.000000Z.zip''
       < file_key old_env ''/backups'' ''a'' ''a_garbage.zip''
   \<and> cleanup_old_backups old_env ''/backups'' ''a'' 1 =
       Inr [Removed ''/backups/a_1969-12-31T00-00-00.000000Z.zip'']"
proof -
  have "strptime_ts (name_part ''a'' ''a_garbage.zip'') = None"
    by (simp add: name_part_def str_defs parse_defs)
  moreover have "getmtime old_env (path_join ''/backups'' ''a_garbage.zip'') = None"
    by (simp add: old_env_def)
  moreover have "strptime_ts (name_part ''a'' ''a_1969-12-31T00-00-00.000000Z.zip'') \<noteq> None"
    by (simp add: name_part_def str_defs parse_defs)
  ultimately show ?thesis
    by (simp add: old_keys old_cleanup)
qed

text \<open>
  C3, amended. When the remaining string of a file name fails to parse, the sortKey is
  the file's last-modified instant; when that cannot be read either, the sortKey is 0,
  the Unix epoch, so that the file ranks at or below every file whose key is not
  negative.
\<close>

theorem unparsable_name_falls_back:
  assumes "strptime_ts (name_part pfx fname) = None"
  shows "case getmtime e (path_join d fname) of
           Some t \<Rightarrow> file_key e d pfx fname = t
         | None \<Rightarrow> file_key e d pfx fname = 0
             \<and> (\<forall>other. 0 \<le> file_key e d pfx other
                   \<longrightarrow> file_key e d pfx fname \<le> file_key e d pfx other)"
  using assms by (simp add: file_key_name_part split: option.splits)

theorem unparsable_name_falls_back_witness:
  "strptime_ts (name_part ''a'' ''a_garbage.zip'') = None
   \<and> getmtime backup_env (path_join ''/backups'' ''a_garbage.zip'') = Some 1000
   \<and> file_key backup_env ''/backups'' ''a'' ''a_garbage.zip'' = 1000
   \<and> getmtime old_env (path_join ''/backups'' ''a_garbage.zip'') = None
   \<and> file_key old_env ''/backups'' ''a'' ''a_garbage.zip'' = 0
   \<and> 0 \<le> file_key old_env ''/backups'' ''a'' ''a_2024-06-01T00-00-00.000000Z.zip''
   \<and> file_key old_env ''/backups'' ''a'' ''a_garbage.zip''
       \<le> file_key old_env ''/backups'' ''a'' ''a_2024-06-01T00-00-00.000000Z.zip''"
proof -
  have h: "strptime_ts (name_part ''a'' ''a_garbage.zip'') = None"
    by (simp add: name_part_def str_defs parse_defs)
  have m1: "getmtime backup_env (path_join ''/backups'' ''a_garbage.zip'') = Some 1000"
    and m2: "getmtime old_env (path_join ''/backups'' ''a_garbage.zip'') = None"
    by (simp_all add: backup_env_def old_env_def)
  have j: "0 \<le> file_key old_env ''/backups'' ''a'' ''a_2024-06-01T00-00-00.000000Z.zip''"
    by (simp add: file_key_name_part name_part_def str_defs parse_defs time_defs old_env_def)
  from unparsable_name_falls_back[OF h, of backup_env "''/backups''"] m1
  have k1: "file_key backup_env ''/backups'' ''a'' ''a_garbage.zip'' = 1000"
    by simp
  from unparsable_name_falls_back[OF h, of old_env "''/backups''"] m2
  have k2: "file_key old_env ''/backups'' ''a'' ''a_garbage.zip'' = 0"
    and k3: "\<forall>other. 0 \<le> file_key old_env ''/backups'' ''a'' other
               \<longrightarrow> file_key old_env ''/backups'' ''a'' ''a_garbage.zip''
                     \<le> file_key old_env ''/backups'' ''a'' other"
    by simp_all
  from k3 j have "file_key old_env ''/backups'' ''a'' ''a_garbage.zip''
       \<le> file_key old_env ''/backups'' ''a'' ''a_2024-06-01T00-00-00.000000Z.zip''"
    by blast
  with h m1 m2 j k1 k2 show ?thesis
    by (intro conjI)
qed

section \<open>Facts about the formatter\<close>

lemma zpad_2: "zpad 2 n = [digit_char (n div 10 mod 10), digit_char (n mod 10)]"
proof -
  have "zpad (Suc (Suc 0)) n = [digit_char (n div 10 mod 10), digit_char (n mod 10)]"
    by simp
  then show ?thesis
    by (simp only: numeral_2_eq_2)
qed

lemma zpad_4:
  "zpad 4 n = [digit_char (n div 10 div 10 div 10 mod 10), digit_char (n div 10 div 10 mod 10),
               digit_char (n div 10 mod 10), digit_char (n mod 10)]"
proof -
  have "zpad (Suc (Suc (Suc (Suc 0)))) n
      = [digit_char (n div 10 div 10 div 10 mod 10), digit_char (n div 10 div 10 mod 10),
         digit_char (n div 10 mod 10), digit_char (n mod 10)]"
    by simp
  moreover have "(4 :: nat) = Suc (Suc (Suc (Suc 0)))"
    by simp
  ultimately show ?thesis
    by (simp only:)
qed

lemma zpad_6:
  "zpad 6 n = [digit_char (n div 10 div 10 div 10 div 10 div 10 mod 10),
               digit_char (n div 10 div 10 div 10 div 10 mod 10),
               digit_char (n div 10 div 10 div 10 mod 10), digit_char (n div 10 div 10 mod 10),
               digit_char (n div 10 mod 10), digit_char (n mod 10)]"
proof -
  have "zpad (Suc (Suc (Suc (Suc (Suc (Suc 0)))))) n
      = [digit_char (n div 10 div 10 div 10 div 10 div 10 mod 10),
         digit_char (n div 10 div 10 div 10 div 10 mod 10),
         digit_char (n div 10 div 10 div 10 mod 10), digit_char (n div 10 div 10 mod 10),
         digit_char (n div 10 mod 10), digit_char (n mod 10)]"
    by simp
  moreover have "(6 :: nat) = Suc (Suc (Suc (Suc (Suc (Suc 0)))))"
    by simp
  ultimately show ?thesis
    by (simp only:)
qed

lemmas format_defs = strftime_ts_def zpad_2 zpad_4 zpad_6 digit_char_def

section \<open>The claims about the strips and the round trip\<close>

text \<open>
  C6 against the code: a candidate whose extension is not in lower case keeps its
  extension in \<open>file_key\<close>, because the selection compares the lower-cased name and
  the strip looks for the literal \<open>.zip\<close>. The name below is selected, its timestamp
  would parse once the extension is gone, and yet its key is the modification time.
\<close>

theorem uppercase_extension_not_stripped:
  "candidates ''a'' [''a_2024-06-01T00-00-00.000000Z.ZIP'']
     = [''a_2024-06-01T00-00-00.000000Z.ZIP'']
   \<and> name_part ''a'' ''a_2024-06-01T00-00-00.000000Z.ZIP'' = ''2024-06-01T00-00-00.000000Z.ZIP''
   \<and> strptime_ts ''2024-06-01T00-00-00.000000Z'' = Some june_first
   \<and> timestamp (utcoffset backup_env) june_first = 1717200000
   \<and> getmtime backup_env (path_join ''/backups'' ''a_2024-06-01T00-00-00.000000Z.ZIP'')
       = Some 1000
   \<and> file_key backup_env ''/backups'' ''a'' ''a_2024-06-01T00-00-00.000000Z.ZIP'' = 1000"
proof -
  have "candidates ''a'' [''a_2024-06-01T00-00-00.000000Z.ZIP'']
     = [''a_2024-06-01T00-00-00.000000Z.ZIP'']"
    by (simp add: candidates_def str_defs)
  moreover have "name_part ''a'' ''a_2024-06-01T00-00-00.000000Z.ZIP''
     = ''2024-06-01T00-00-00.000000Z.ZIP''"
    by (simp add: name_part_def str_defs)
  moreover have "strptime_ts ''2024-06-01T00-00-00.000000Z'' = Some june_first"
    by (simp add: parse_defs june_first_def str_defs)
  moreover have "timestamp (utcoffset backup_env) june_first = 1717200000"
    by (simp add: time_defs june_first_def backup_env_def)
  moreover have "getmtime backup_env (path_join ''/backups'' ''a_2024-06-01T00-00-00.000000Z.ZIP'')
       = Some 1000"
    by (simp add: backup_env_def)
  moreover have "file_key backup_env ''/backups'' ''a'' ''a_2024-06-01T00-00-00.000000Z.ZIP'' = 1000"
    by (simp add: file_key_name_part name_part_def str_defs parse_defs backup_env_def)
  ultimately show ?thesis
    by (intro conjI)
qed

text \<open>
  C10, as stated, fails: \<open>rsplit\<close> cuts the name at the last literal \<open>.zip\<close> wherever it
  stands, so a name that ends in \<open>.ZIP\<close> and has \<open>.zip\<close> before it loses both, and its
  key is the parsed timestamp, not the modification time.
\<close>

theorem uppercase_extension_parsed_anyway:
  "endswith (lower ''a_2024-06-01T00-00-00.000000Z.zip.ZIP'') ''.zip''
   \<and> \<not> endswith ''a_2024-06-01T00-00-00.000000Z.zip.ZIP'' ''.zip''
   \<and> candidates ''a'' [''a_2024-06-01T00-00-00.000000Z.zip.ZIP'']
       = [''a_2024-06-01T00-00-00.000000Z.zip.ZIP'']
   \<and> strptime_ts (name_part ''a'' ''a_2024-06-01T00-00-00.000000Z.zip.ZIP'') = Some june_first
   \<and> getmtime backup_env (path_join ''/backups'' ''a_2024-06-01T00-00-00.000000Z.zip.ZIP'')
       = Some 1000
   \<and> file_key backup_env ''/backups'' ''a'' ''a_2024-06-01T00-00-00.000000Z.zip.ZIP''
       = 1717200000"
proof -
  have "endswith (lower ''a_2024-06-01T00-00-00.000000Z.zip.ZIP'') ''.zip''"
    and "\<not> endswith ''a_2024-06-01T00-00-00.000000Z.zip.ZIP'' ''.zip''"
    by (simp_all add: str_defs)
  moreover have "candidates ''a'' [''a_2024-06-01T00-00-00.000000Z.zip.ZIP'']
       = [''a_2024-06-01T00-00-00.000000Z.zip.ZIP'']"
    by (simp add: candidates_def str_defs)
  moreover have "strptime_ts (name_part ''a'' ''a_2024-06-01T00-00-00.000000Z.zip.ZIP'')
       = Some june_first"
    by (simp add: name_part_def parse_defs june_first_def str_defs)
  moreover have "getmtime backup_env
       (path_join ''/backups'' ''a_2024-06-01T00-00-00.000000Z.zip.ZIP'') = Some 1000"
    by (simp add: backup_env_def)
  moreover have "file_key backup_env ''/backups'' ''a'' ''a_2024-06-01T00-00-00.000000Z.zip.ZIP''
       = 1717200000"
    by (simp add: file_key_name_part name_part_def str_defs parse_defs time_defs backup_env_def)
  ultimately show ?thesis
    by (intro conjI)
qed

text \<open>
  C10, amended. A file whose lower-cased name ends in \<open>.zip\<close> (and that starts with the
  prefix, if there is one) is selected as a candidate. If its name nowhere contains
  the literal lower-case \<open>.zip\<close>, so that its extension is in upper or mixed case,
  nothing is stripped from its end, the timestamp parse fails, and its sortKey is taken
  from the fallback: the modification time, or 0 when that cannot be read.
\<close>

theorem uppercase_extension_uses_fallback:
  assumes "endswith (lower fname) ''.zip''"
    and "pfx = [] \<or> startswith fname pfx"
    and "\<not> contains fname ''.zip''"
  shows "candidates pfx [fname] = [fname]
         \<and> strptime_ts (name_part pfx fname) = None
         \<and> file_key e d pfx fname
             = (case getmtime e (path_join d fname) of Some t \<Rightarrow> t | None \<Rightarrow> 0)"
proof -
  have "candidates pfx [fname] = [fname]"
    using assms(1,2) by (auto simp: candidates_def)
  moreover have p: "strptime_ts (name_part pfx fname) = None"
    using assms(1,3) by (rule uppercase_parse_fails)
  moreover have "file_key e d pfx fname
      = (case getmtime e (path_join d fname) of Some t \<Rightarrow> t | None \<Rightarrow> 0)"
    by (simp add: file_key_name_part p)
  ultimately show ?thesis
    by (intro conjI)
qed

theorem uppercase_extension_uses_fallback_witness:
  "endswith (lower ''a_2024-06-01T00-00-00.000000Z.ZIP'') ''.zip''
   \<and> (''a'' = [] \<or> startswith ''a_2024-06-01T00-00-00.000000Z.ZIP'' ''a'')
   \<and> \<not> contains ''a_2024-06-01T00-00-00.000000Z.ZIP'' ''.zip''
   \<and> candidates ''a'' [''a_2024-06-01T00-00-00.000000Z.ZIP'']
       = [''a_2024-06-01T00-00-00.000000Z.ZIP'']
   \<and> strptime_ts (name_part ''a'' ''a_2024-06-01T00-00-00.000000Z.ZIP'') = None
   \<and> file_key backup_env ''/backups'' ''a'' ''a_2024-06-01T00-00-00.000000Z.ZIP''
       = (case getmtime backup_env (path_join ''/backups'' ''a_2024-06-01T00-00-00.000000Z.ZIP'')
          of Some t \<Rightarrow> t | None \<Rightarrow> 0)"
proof -
  have h1: "endswith (lower ''a_2024-06-01T00-00-00.000000Z.ZIP'') ''.zip''"
    by (simp add: str_defs)
  have h2: "''a'' = [] \<or> startswith ''a_2024-06-01T00-00-00.000000Z.ZIP'' ''a''"
    by (simp add: str_defs)
  have h3: "\<not> contains ''a_2024-06-01T00-00-00.000000Z.ZIP'' ''.zip''"
    by (simp add: str_defs)
  from h1 h2 h3
    uppercase_extension_uses_fallback[OF h1 h2 h3, of backup_env "''/backups''"]
  show ?thesis
    by (intro conjI) simp_all
qed

text \<open>
  C4 against the code: the archiver writes the UTC time into the name, and \<open>file_key\<close>
  reads it back as a naive \<open>datetime\<close>, whose \<open>timestamp()\<close> is taken in the local zone.
  On a machine two hours east of UTC, the archive made at 2024-06-01T00:00:00 UTC gets
  the key of the instant two hours before.
\<close>

theorem roundtrip_shifted_by_local_zone:
  "valid_datetime june_first
   \<and> zip_name ''a'' june_first = ''a_2024-06-01T00-00-00.000000Z.zip''
   \<and> utc_instant june_first = 1717200000
   \<and> utcoffset east_env = 7200
   \<and> file_key east_env ''/backups'' ''a'' (zip_name ''a'' june_first) = 1717192800"
proof -
  have "valid_datetime june_first"
    by (simp add: valid_datetime_def june_first_def mk_datetime_def days_in_month_def)
  moreover have z: "zip_name ''a'' june_first = ''a_2024-06-01T00-00-00.000000Z.zip''"
    by (simp add: zip_name_def format_defs june_first_def Let_def)
  moreover have "utc_instant june_first = 1717200000"
    by (simp add: utc_instant_def time_defs june_first_def)
  moreover have "utcoffset east_env = 7200"
    by (simp add: east_env_def)
  moreover have "file_key east_env ''/backups'' ''a'' ''a_2024-06-01T00-00-00.000000Z.zip''
      = 1717192800"
    by (simp add: file_key_name_part name_part_def str_defs parse_defs time_defs
        east_env_def backup_env_def)
  ultimately show ?thesis
    by simp
qed

section \<open>Facts about paths\<close>

lemma split_slash_nonempty: "split_slash s \<noteq> []"
  by (induction s) (auto split: list.splits)

lemma split_slash_append:
  "split_slash (a @ CHR ''/'' # b) = split_slash a @ split_slash b"
proof (induction a)
  case Nil
  show ?case by simp
next
  case (Cons c a)
  obtain x xs where "split_slash a = x # xs"
    using split_slash_nonempty[of a] by (cases "split_slash a") auto
  with Cons show ?case by simp
qed

lemma split_slash_plain: "CHR ''/'' \<notin> set n \<Longrightarrow> split_slash n = [n]"
  by (induction n) auto

lemma is_abs_Nil: "\<not> is_abs []"
  by (simp add: is_abs_def startswith_def)

lemma is_abs_Cons: "is_abs (c # s) \<longleftrightarrow> c = CHR ''/''"
  by (simp add: is_abs_def startswith_def)

lemma is_abs_append: "a \<noteq> [] \<Longrightarrow> is_abs (a @ b) = is_abs a"
  by (cases a) (simp_all add: is_abs_Cons)

lemma resolve_snoc:
  "resolve (a @ CHR ''/'' # n) =
     foldl (resolve_step (is_abs (a @ CHR ''/'' # n)))
       (foldl (resolve_step (is_abs (a @ CHR ''/'' # n))) [] (split_slash a)) (split_slash n)"
  by (simp add: resolve_def split_slash_append)

lemma resolve_trailing_slash:
  assumes "l \<noteq> []"
  shows "is_abs (l @ ''/'') = is_abs l \<and> resolve (l @ ''/'') = resolve l"
proof -
  have "is_abs (l @ ''/'') = is_abs l"
    using assms by (rule is_abs_append)
  moreover from this have "resolve (l @ ''/'') = resolve l"
    by (simp add: resolve_snoc) (simp add: resolve_def resolve_step_def)
  ultimately show ?thesis ..
qed

lemma resolve_trailing_slashes:
  assumes "l \<noteq> []"
  shows "is_abs (l @ replicate k (CHR ''/'')) = is_abs l
         \<and> resolve (l @ replicate k (CHR ''/'')) = resolve l"
proof (induction k)
  case 0
  show ?case by simp
next
  case (Suc k)
  have "l @ replicate (Suc k) (CHR ''/'') = (l @ replicate k (CHR ''/'')) @ ''/''"
    by (simp add: replicate_append_same)
  with Suc resolve_trailing_slash[of "l @ replicate k (CHR ''/'')"] assms show ?case
    by simp
qed

lemma rstrip_slash_decomp: "\<exists>k. s = rstrip_slash s @ replicate k (CHR ''/'')"
proof -
  let ?P = "\<lambda>c. c = CHR ''/''"
  have "rev s = takeWhile ?P (rev s) @ dropWhile ?P (rev s)"
    by simp
  then have "s = rev (dropWhile ?P (rev s)) @ rev (takeWhile ?P (rev s))"
    by (metis rev_append rev_rev_ident)
  moreover have "\<forall>c \<in> set (rev (takeWhile ?P (rev s))). c = CHR ''/''"
    by (auto dest: set_takeWhileD)
  then have "rev (takeWhile ?P (rev s))
      = replicate (length (rev (takeWhile ?P (rev s)))) (CHR ''/'')"
    by (intro replicate_length_same[symmetric]) auto
  ultimately show ?thesis
    unfolding rstrip_slash_def by metis
qed

lemma resolve_rstrip_slash:
  assumes "s \<noteq> replicate (length s) (CHR ''/'')"
  shows "is_abs (rstrip_slash s) = is_abs s \<and> resolve (rstrip_slash s) = resolve s"
proof -
  obtain k where k: "s = rstrip_slash s @ replicate k (CHR ''/'')"
    using rstrip_slash_decomp by blast
  have "rstrip_slash s \<noteq> []"
  proof
    assume "rstrip_slash s = []"
    with k have "s = replicate k (CHR ''/'')" by simp
    then have "s = replicate (length s) (CHR ''/'')" by simp
    with assms show False by simp
  qed
  from resolve_trailing_slashes[OF this, of k] k show ?thesis
    by simp
qed

lemma rstrip_slash_snoc: "rstrip_slash (l @ ''/'') = rstrip_slash l"
  by (simp add: rstrip_slash_def)

lemma contains_char: "contains s [c] \<longleftrightarrow> c \<in> set s"
  by (induction s) (auto simp: startswith_def)

lemma rfind_char_absent: "c \<notin> set n \<Longrightarrow> rfind n [c] = None"
  by (simp add: rfind_None_iff contains_char)

lemma rfind_last_char: "c \<notin> set n \<Longrightarrow> rfind (l @ c # n) [c] = Some (length l)"
  by (induction l) (simp_all add: rfind_char_absent startswith_def)

lemma lies_under_iff:
  "lies_under t p \<longleftrightarrow>
     is_abs p = is_abs t \<and> (\<exists>r. resolve p = resolve t @ r \<and> ''..'' \<notin> set r)"
  by (auto simp: lies_under_def prefix_def)

lemma lies_under_refl: "lies_under p p"
  by (simp add: lies_under_iff)

lemma lies_under_trans:
  assumes "lies_under a b" "lies_under b c"
  shows "lies_under a c"
proof -
  from assms obtain r1 r2 where "resolve b = resolve a @ r1" "''..'' \<notin> set r1"
    and "resolve c = resolve b @ r2" "''..'' \<notin> set r2"
    and ab: "is_abs b = is_abs a" "is_abs c = is_abs b"
    unfolding lies_under_iff by blast
  then have "resolve c = resolve a @ (r1 @ r2)" "''..'' \<notin> set (r1 @ r2)"
    by simp_all
  with ab show ?thesis
    unfolding lies_under_iff by (intro conjI exI[of _ "r1 @ r2"]) simp_all
qed

lemma resolve_plain:
  assumes "CHR ''/'' \<notin> set n" "n \<noteq> ''.''" "n \<noteq> ''..''"
  shows "resolve n = (if n = [] then [] else [n])"
  using assms by (simp add: resolve_def split_slash_plain resolve_step_def)

lemma plain_not_abs: "CHR ''/'' \<notin> set n \<Longrightarrow> \<not> startswith n ''/''"
  by (cases n) (auto simp: startswith_def)

lemma endswith_slash: "endswith a ''/'' \<Longrightarrow> \<exists>l. a = l @ ''/''"
proof -
  assume "endswith a ''/''"
  then have "drop (length a - 1) a = ''/''" by (simp add: endswith_def)
  then have "take (length a - 1) a @ ''/'' = a"
    using append_take_drop_id[of "length a - 1" a] by simp
  then show ?thesis by (intro exI[of _ "take (length a - 1) a"]) simp
qed

lemma join_plain:
  assumes n: "CHR ''/'' \<notin> set n" "n \<noteq> ''.''" "n \<noteq> ''..''"
  shows "is_abs (path_join ld n) = is_abs ld
         \<and> resolve (path_join ld n) = resolve ld @ (if n = [] then [] else [n])"
proof -
  note na = plain_not_abs[OF n(1)]
  have step: "foldl (resolve_step b) st (split_slash n) = st @ (if n = [] then [] else [n])"
    for b st
    using n by (simp add: split_slash_plain resolve_step_def)
  consider (empty) "ld = []"
    | (slash) l where "ld = l @ ''/''"
    | (other) "ld \<noteq> []" "\<not> endswith ld ''/''"
    using endswith_slash[of ld] by blast
  then show ?thesis
  proof cases
    case empty
    have "path_join [] n = n"
      using na by (simp add: path_join_def)
    moreover have "resolve [] = []"
      by (simp add: resolve_def resolve_step_def)
    moreover have "\<not> is_abs n"
      using na by (simp add: is_abs_def)
    ultimately show ?thesis
      using empty resolve_plain[OF n] by (simp add: is_abs_Nil)
  next
    case slash
    have pj: "path_join ld n = l @ CHR ''/'' # n"
      using slash na by (simp add: path_join_def endswith_def)
    have ab: "is_abs (l @ CHR ''/'' # n) = is_abs (l @ ''/'')"
      by (cases l) (simp_all add: is_abs_Cons)
    have "resolve ld = foldl (resolve_step (is_abs ld)) [] (split_slash l)"
      using resolve_snoc[of l "[]"] slash by (simp add: resolve_step_def)
    with pj ab slash show ?thesis
      by (simp add: resolve_snoc step)
  next
    case other
    have pj: "path_join ld n = ld @ CHR ''/'' # n"
      using other na by (simp add: path_join_def)
    have ab: "is_abs (ld @ CHR ''/'' # n) = is_abs ld"
      using other(1) by (rule is_abs_append)
    with pj show ?thesis
      by (simp add: resolve_snoc step) (simp add: resolve_def)
  qed
qed

lemma lies_under_join:
  assumes "CHR ''/'' \<notin> set n" "n \<noteq> ''.''" "n \<noteq> ''..''"
  shows "lies_under ld (path_join ld n)"
  using join_plain[OF assms, of ld] assms(3) by (simp add: lies_under_iff)

lemma all_slashes_snoc:
  "l @ ''/'' = replicate (length l + 1) (CHR ''/'') \<longleftrightarrow> l = replicate (length l) (CHR ''/'')"
proof
  assume "l @ ''/'' = replicate (length l + 1) (CHR ''/'')"
  then have "l @ ''/'' = replicate (length l) (CHR ''/'') @ ''/''"
    by (simp add: replicate_append_same)
  then show "l = replicate (length l) (CHR ''/'')"
    by simp
next
  assume "l = replicate (length l) (CHR ''/'')"
  then have "l @ ''/'' = replicate (length l) (CHR ''/'') @ ''/''"
    by simp
  then show "l @ ''/'' = replicate (length l + 1) (CHR ''/'')"
    by (simp add: replicate_append_same)
qed

lemma all_slashes_endswith:
  assumes "ld \<noteq> []" "ld = replicate (length ld) (CHR ''/'')"
  shows "endswith ld ''/''"
proof -
  from assms(1) obtain k where k: "length ld = Suc k"
    by (cases ld) auto
  with assms(2) have r: "ld = replicate (Suc k) (CHR ''/'')"
    by simp
  have "drop k (replicate (Suc k) (CHR ''/'')) = replicate (Suc k - k) (CHR ''/'')"
    by (rule drop_replicate)
  with r have "drop k ld = ''/''"
    by simp
  with k show ?thesis
    by (simp add: endswith_def)
qed

lemma dirname_snoc:
  assumes "CHR ''/'' \<notin> set n"
  shows "dirname (l @ CHR ''/'' # n) =
           (if l @ ''/'' \<noteq> replicate (length l + 1) (CHR ''/'') then rstrip_slash l
            else l @ ''/'')"
proof -
  have "take (Suc (length l)) (l @ CHR ''/'' # n) = l @ ''/''"
    by simp
  with assms show ?thesis
    by (simp add: dirname_def rfind_last_char Let_def rstrip_slash_snoc)
qed

lemma lies_under_dirname_join:
  assumes n: "CHR ''/'' \<notin> set n"
  shows "lies_under ld (dirname (path_join ld n))"
proof -
  note na = plain_not_abs[OF n]
  consider (empty) "ld = []"
    | (slash) l where "ld = l @ ''/''"
    | (other) "ld \<noteq> []" "\<not> endswith ld ''/''"
    using endswith_slash[of ld] by blast
  then show ?thesis
  proof cases
    case empty
    with na n show ?thesis
      by (simp add: path_join_def dirname_def rfind_char_absent lies_under_refl)
  next
    case slash
    have pj: "path_join ld n = l @ CHR ''/'' # n"
      using slash na by (simp add: path_join_def endswith_def)
    show ?thesis
    proof (cases "l = replicate (length l) (CHR ''/'')")
      case True
      then have "dirname (l @ CHR ''/'' # n) = l @ ''/''"
        using all_slashes_snoc[of l] by (simp only: dirname_snoc[OF n] if_False simp_thms)
      with pj slash show ?thesis
        by (simp add: lies_under_refl)
    next
      case False
      then have d: "dirname (l @ CHR ''/'' # n) = rstrip_slash l"
        using all_slashes_snoc[of l] by (simp only: dirname_snoc[OF n] if_True simp_thms)
      from False have "l \<noteq> []" by auto
      from resolve_rstrip_slash[OF False] resolve_trailing_slash[OF this] pj slash d
      show ?thesis
        by (simp add: lies_under_iff)
    qed
  next
    case other
    have pj: "path_join ld n = ld @ CHR ''/'' # n"
      using other na by (simp add: path_join_def)
    have nl: "ld \<noteq> replicate (length ld) (CHR ''/'')"
      using all_slashes_endswith[OF other(1)] other(2) by blast
    then have d: "dirname (ld @ CHR ''/'' # n) = rstrip_slash ld"
      using all_slashes_snoc[of ld] by (simp only: dirname_snoc[OF n] if_True simp_thms)
    with resolve_rstrip_slash[OF nl] pj show ?thesis
      by (simp add: lies_under_iff)
  qed
qed

section \<open>Facts about the walker\<close>

declare download_sftp_dir.simps [simp del]

lemma S_ISDIR_without_dots: "S_ISDIR (without_dots node) = S_ISDIR node"
  by (cases node) simp_all

lemma download_entries_Cons:
  assumes "\<not> (name = ''.'' \<or> name = ''..'')"
    and "sub = (if S_ISDIR node
                  then download_sftp_dir w node (rstrip_slash rd @ ''/'' @ name) (path_join ld name)
                  else download_sftp_file w (rstrip_slash rd @ ''/'' @ name) (path_join ld name))"
  shows "download_entries w ((name, node) # rest) rd ld =
           (case snd sub of
              Some err \<Rightarrow> (fst sub, Some err)
            | None \<Rightarrow> (fst sub @ fst (download_entries w rest rd ld),
                        snd (download_entries w rest rd ld)))"
  using assms by (simp add: Let_def split: prod.splits option.splits)

lemma walk_without_dots:
  "download_sftp_dir w (without_dots node) rd ld = download_sftp_dir w node rd ld"
  "download_entries w (without_dots_list entries) rd ld = download_entries w entries rd ld"
proof (induction w node rd ld and w entries rd ld
    rule: download_sftp_dir_download_entries.induct)
  case (1 w node remote_dir local_dir)
  then show ?case
    by (cases node) (auto simp: download_sftp_dir.simps)
next
  case (2 w remote_dir local_dir)
  show ?case by simp
next
  case (3 w name node rest remote_dir local_dir)
  show ?case
  proof (cases "name = ''.'' \<or> name = ''..''")
    case True
    with 3 show ?thesis by simp
  next
    case False
    let ?rp = "rstrip_slash remote_dir @ ''/'' @ name"
    let ?lp = "path_join local_dir name"
    define sub where "sub = (if S_ISDIR node then download_sftp_dir w node ?rp ?lp
                             else download_sftp_file w ?rp ?lp)"
    have sub': "sub = (if S_ISDIR (without_dots node)
                         then download_sftp_dir w (without_dots node) ?rp ?lp
                         else download_sftp_file w ?rp ?lp)"
      using "3.IH"(2)[OF False refl refl] by (simp add: sub_def S_ISDIR_without_dots)
    have rest: "download_entries w (without_dots_list rest) remote_dir local_dir
        = download_entries w rest remote_dir local_dir" if "snd sub = None"
    proof -
      from that have "(fst sub, None) = sub"
        by (cases sub) simp
      from "3.IH"(3)[OF False refl refl this[unfolded sub_def] refl] show ?thesis .
    qed
    have "download_entries w (without_dots_list ((name, node) # rest)) remote_dir local_dir
        = download_entries w ((name, without_dots node) # without_dots_list rest)
            remote_dir local_dir"
      using False by simp
    also have "\<dots> = (case snd sub of
              Some err \<Rightarrow> (fst sub, Some err)
            | None \<Rightarrow> (fst sub @ fst (download_entries w (without_dots_list rest)
                                      remote_dir local_dir),
                        snd (download_entries w (without_dots_list rest) remote_dir local_dir)))"
      using False sub' by (rule download_entries_Cons)
    also have "\<dots> = (case snd sub of
              Some err \<Rightarrow> (fst sub, Some err)
            | None \<Rightarrow> (fst sub @ fst (download_entries w rest remote_dir local_dir),
                        snd (download_entries w rest remote_dir local_dir)))"
      using rest by (cases "snd sub") simp_all
    also have "\<dots> = download_entries w ((name, node) # rest) remote_dir local_dir"
      using False sub_def by (rule download_entries_Cons[symmetric])
    finally show ?thesis .
  qed
qed

lemma download_sftp_file_under:
  assumes "CHR ''/'' \<notin> set name" "name \<noteq> ''.''" "name \<noteq> ''..''"
    and "a \<in> set (fst (download_sftp_file w rp (path_join ld name)))"
  shows "lies_under ld (local_path_of a)"
proof -
  from assms(4) have "local_path_of a = dirname (path_join ld name)
      \<or> local_path_of a = path_join ld name"
    by (auto simp: download_sftp_file_def Let_def split: if_splits)
  with lies_under_dirname_join[OF assms(1), of ld] lies_under_join[OF assms(1-3), of ld]
  show ?thesis by auto
qed

declare download_sftp_dir_tagged.simps [simp del]

lemma download_entries_tagged_Cons:
  assumes "\<not> (name = ''.'' \<or> name = ''..'')"
    and "sub = (if S_ISDIR node
                  then download_sftp_dir_tagged w node (names @ [name])
                         (rstrip_slash rd @ ''/'' @ name) (path_join ld name)
                  else (map (Pair (names @ [name]))
                          (fst (download_sftp_file w (rstrip_slash rd @ ''/'' @ name)
                                  (path_join ld name))),
                        snd (download_sftp_file w (rstrip_slash rd @ ''/'' @ name)
                               (path_join ld name))))"
  shows "download_entries_tagged w ((name, node) # rest) names rd ld =
           (case snd sub of
              Some err \<Rightarrow> (fst sub, Some err)
            | None \<Rightarrow> (fst sub @ fst (download_entries_tagged w rest names rd ld),
                        snd (download_entries_tagged w rest names rd ld)))"
  using assms by (simp add: Let_def split: prod.splits option.splits)

text \<open>Without the tags, the tagged walk is the walk.\<close>

lemma tagged_walk_is_walk:
  "(map snd (fst (download_sftp_dir_tagged w node names rd ld)),
    snd (download_sftp_dir_tagged w node names rd ld)) = download_sftp_dir w node rd ld"
  "(map snd (fst (download_entries_tagged w entries names rd ld)),
    snd (download_entries_tagged w entries names rd ld)) = download_entries w entries rd ld"
proof (induction w node names rd ld and w entries names rd ld
    rule: download_sftp_dir_tagged_download_entries_tagged.induct)
  case (1 w node names remote_dir local_dir)
  show ?case
  proof (cases "makedirs_ok w local_dir")
    case False
    then show ?thesis
      by (simp add: download_sftp_dir_tagged.simps download_sftp_dir.simps)
  next
    case True
    show ?thesis
    proof (cases node)
      case (RDir entries)
      from "1.IH"[OF _ RDir] True
      have "(map snd (fst (download_entries_tagged w entries names remote_dir local_dir)),
             snd (download_entries_tagged w entries names remote_dir local_dir))
          = download_entries w entries remote_dir local_dir"
        by simp
      with True RDir show ?thesis
        by (cases "download_entries_tagged w entries names remote_dir local_dir";
            cases "download_entries w entries remote_dir local_dir")
          (simp add: download_sftp_dir_tagged.simps download_sftp_dir.simps)
    qed (use True in \<open>simp_all add: download_sftp_dir_tagged.simps download_sftp_dir.simps\<close>)
  qed
next
  case (2 w names remote_dir local_dir)
  show ?case by simp
next
  case (3 w name node rest names remote_dir local_dir)
  show ?case
  proof (cases "name = ''.'' \<or> name = ''..''")
    case True
    with 3 show ?thesis by simp
  next
    case False
    let ?rp = "rstrip_slash remote_dir @ ''/'' @ name"
    let ?lp = "path_join local_dir name"
    define fres where "fres = download_sftp_file w ?rp ?lp"
    define tsub where "tsub = (if S_ISDIR node
        then download_sftp_dir_tagged w node (names @ [name]) ?rp ?lp
        else (map (Pair (names @ [name])) (fst fres), snd fres))"
    define sub where "sub = (if S_ISDIR node then download_sftp_dir w node ?rp ?lp else fres)"
    have tsub_if: "tsub = (if S_ISDIR node
        then download_sftp_dir_tagged w node (names @ [name]) ?rp ?lp
        else (case download_sftp_file w ?rp ?lp of
                (acts, err) \<Rightarrow> (map (Pair (names @ [name])) acts, err)))"
      by (simp add: tsub_def fres_def split: prod.splits)
    have proj: "(map snd (fst tsub), snd tsub) = sub"
    proof (cases "S_ISDIR node")
      case True
      with "3.IH"(2)[OF False refl refl True] show ?thesis
        by (simp add: tsub_def sub_def)
    next
      case False
      then show ?thesis
        by (simp add: tsub_def sub_def comp_def)
    qed
    have rest: "(map snd (fst (download_entries_tagged w rest names remote_dir local_dir)),
                 snd (download_entries_tagged w rest names remote_dir local_dir))
        = download_entries w rest remote_dir local_dir" if "snd tsub = None"
    proof -
      from that have "(fst tsub, None) = tsub"
        by (cases tsub) simp
      from "3.IH"(3)[OF False refl refl this[unfolded tsub_if] refl] show ?thesis .
    qed
    have t: "download_entries_tagged w ((name, node) # rest) names remote_dir local_dir =
           (case snd tsub of
              Some err \<Rightarrow> (fst tsub, Some err)
            | None \<Rightarrow> (fst tsub @ fst (download_entries_tagged w rest names remote_dir local_dir),
                        snd (download_entries_tagged w rest names remote_dir local_dir)))"
      using False by (rule download_entries_tagged_Cons) (simp add: tsub_def fres_def)
    have u: "download_entries w ((name, node) # rest) remote_dir local_dir =
           (case snd sub of
              Some err \<Rightarrow> (fst sub, Some err)
            | None \<Rightarrow> (fst sub @ fst (download_entries w rest remote_dir local_dir),
                        snd (download_entries w rest remote_dir local_dir)))"
      using False by (rule download_entries_Cons) (simp add: sub_def fres_def)
    from proj have p1: "map snd (fst tsub) = fst sub" and p2: "snd tsub = snd sub"
      by (cases sub; simp)+
    show ?thesis
    proof (cases "snd tsub")
      case None
      from rest[OF None]
      have "map snd (fst (download_entries_tagged w rest names remote_dir local_dir))
            = fst (download_entries w rest remote_dir local_dir)"
        and "snd (download_entries_tagged w rest names remote_dir local_dir)
            = snd (download_entries w rest remote_dir local_dir)"
        by (cases "download_entries w rest remote_dir local_dir"; simp)+
      with None p1 p2 show ?thesis
        unfolding t u by simp
    next
      case (Some e)
      with p2 have "snd sub = Some e" "snd tsub = Some e"
        by simp_all
      with p1 show ?thesis
        unfolding t u by simp
    qed
  qed
qed

text \<open>
  Every tag extends the tag of the call, and an action whose further names have no
  path separator stays under the local directory of the call.
\<close>

lemma tagged_walk_under:
  "\<forall>(tag, a) \<in> set (fst (download_sftp_dir_tagged w node names rd ld)).
     \<exists>more. tag = names @ more
       \<and> ((\<forall>n \<in> set more. CHR ''/'' \<notin> set n) \<longrightarrow> lies_under ld (local_path_of a))"
  "\<forall>(tag, a) \<in> set (fst (download_entries_tagged w entries names rd ld)).
     \<exists>more. tag = names @ more
       \<and> ((\<forall>n \<in> set more. CHR ''/'' \<notin> set n) \<longrightarrow> lies_under ld (local_path_of a))"
proof (induction w node names rd ld and w entries names rd ld
    rule: download_sftp_dir_tagged_download_entries_tagged.induct)
  case (1 w node names remote_dir local_dir)
  have here: "\<exists>more. names = names @ more
      \<and> ((\<forall>n \<in> set more. CHR ''/'' \<notin> set n)
           \<longrightarrow> lies_under local_dir (local_path_of (Makedirs local_dir)))"
    by (intro exI[of _ "[]"]) (simp add: lies_under_refl)
  show ?case
  proof (cases "makedirs_ok w local_dir")
    case False
    with here show ?thesis
      by (simp add: download_sftp_dir_tagged.simps)
  next
    case True
    show ?thesis
    proof (cases node)
      case (RDir entries)
      from "1.IH"[OF _ RDir] True
      have "\<forall>(tag, a) \<in> set (fst (download_entries_tagged w entries names remote_dir local_dir)).
          \<exists>more. tag = names @ more
            \<and> ((\<forall>n \<in> set more. CHR ''/'' \<notin> set n)
                 \<longrightarrow> lies_under local_dir (local_path_of a))"
        by simp
      with True RDir here show ?thesis
        by (cases "download_entries_tagged w entries names remote_dir local_dir")
          (simp add: download_sftp_dir_tagged.simps)
    qed (use True here in \<open>simp_all add: download_sftp_dir_tagged.simps\<close>)
  qed
next
  case (2 w names remote_dir local_dir)
  show ?case by simp
next
  case (3 w name node rest names remote_dir local_dir)
  show ?case
  proof (cases "name = ''.'' \<or> name = ''..''")
    case True
    with 3 show ?thesis by simp
  next
    case False
    let ?rp = "rstrip_slash remote_dir @ ''/'' @ name"
    let ?lp = "path_join local_dir name"
    let ?good = "\<lambda>(tag, a). \<exists>more. tag = names @ more
        \<and> ((\<forall>n \<in> set more. CHR ''/'' \<notin> set n) \<longrightarrow> lies_under local_dir (local_path_of a))"
    from False have nd: "name \<noteq> ''.''" "name \<noteq> ''..''" by simp_all
    define fres where "fres = download_sftp_file w ?rp ?lp"
    define tsub where "tsub = (if S_ISDIR node
        then download_sftp_dir_tagged w node (names @ [name]) ?rp ?lp
        else (map (Pair (names @ [name])) (fst fres), snd fres))"
    have tsub_if: "tsub = (if S_ISDIR node
        then download_sftp_dir_tagged w node (names @ [name]) ?rp ?lp
        else (case download_sftp_file w ?rp ?lp of
                (acts, err) \<Rightarrow> (map (Pair (names @ [name])) acts, err)))"
      by (simp add: tsub_def fres_def split: prod.splits)
    have sub: "\<forall>x \<in> set (fst tsub). ?good x"
    proof (cases "S_ISDIR node")
      case True
      show ?thesis
      proof
        fix x assume x: "x \<in> set (fst tsub)"
        obtain tag a where xa: "x = (tag, a)" by (cases x)
        from x True xa
        have "(tag, a) \<in> set (fst (download_sftp_dir_tagged w node (names @ [name]) ?rp ?lp))"
          by (simp add: tsub_def)
        from bspec[OF "3.IH"(2)[OF False refl refl True] this]
        obtain more where m: "tag = (names @ [name]) @ more"
          and u: "(\<forall>n \<in> set more. CHR ''/'' \<notin> set n) \<longrightarrow> lies_under ?lp (local_path_of a)"
          by blast
        have "(\<forall>n \<in> set (name # more). CHR ''/'' \<notin> set n)
            \<longrightarrow> lies_under local_dir (local_path_of a)"
        proof
          assume p: "\<forall>n \<in> set (name # more). CHR ''/'' \<notin> set n"
          then have "lies_under local_dir ?lp"
            using nd by (intro lies_under_join) simp_all
          moreover from p u have "lies_under ?lp (local_path_of a)"
            by simp
          ultimately show "lies_under local_dir (local_path_of a)"
            by (rule lies_under_trans)
        qed
        with m xa show "?good x"
          by (intro case_prodI2 exI[of _ "name # more"]) simp
      qed
    next
      case False
      show ?thesis
      proof
        fix x assume x: "x \<in> set (fst tsub)"
        with False obtain a where xa: "x = (names @ [name], a)"
          and a: "a \<in> set (fst (download_sftp_file w ?rp ?lp))"
          by (auto simp: tsub_def fres_def)
        have "(\<forall>n \<in> set [name]. CHR ''/'' \<notin> set n)
            \<longrightarrow> lies_under local_dir (local_path_of a)"
          using download_sftp_file_under[OF _ nd a] by simp
        with xa show "?good x"
          by (intro exI[of _ "[name]"] case_prodI2) simp
      qed
    qed
    have rest: "\<forall>x \<in> set (fst (download_entries_tagged w rest names remote_dir local_dir)).
        ?good x" if "snd tsub = None"
    proof -
      from that have "(fst tsub, None) = tsub"
        by (cases tsub) simp
      from "3.IH"(3)[OF False refl refl this[unfolded tsub_if] refl] show ?thesis .
    qed
    have t: "download_entries_tagged w ((name, node) # rest) names remote_dir local_dir =
           (case snd tsub of
              Some err \<Rightarrow> (fst tsub, Some err)
            | None \<Rightarrow> (fst tsub @ fst (download_entries_tagged w rest names remote_dir local_dir),
                        snd (download_entries_tagged w rest names remote_dir local_dir)))"
      using False by (rule download_entries_tagged_Cons) (simp add: tsub_def fres_def)
    show ?thesis
    proof (cases "snd tsub")
      case None
      with sub rest[OF None] show ?thesis
        unfolding t by (simp add: ball_Un)
    next
      case (Some e)
      with sub show ?thesis
        unfolding t by simp
    qed
  qed
qed

section \<open>The example trees, evaluated\<close>

lemmas path_defs = path_join_def dirname_def rstrip_slash_def Let_def

lemmas walk_defs = download_sftp_dir.simps download_sftp_file_def ok_wenv_def

lemma data_tree_walk:
  "download_sftp_dir ok_wenv data_tree ''/data'' ''/tmp/x'' =
     ([Makedirs ''/tmp/x'',
       Makedirs ''/tmp/x'', Get ''/data/f1.txt'' ''/tmp/x/f1.txt'',
       Makedirs ''/tmp/x/sub'',
       Makedirs ''/tmp/x/sub'', Get ''/data/sub/f2.txt'' ''/tmp/x/sub/f2.txt''], None)"
  by (simp add: data_tree_def walk_defs path_defs str_defs)

lemma data_tree_without_dots:
  "without_dots data_tree =
     RDir [(''f1.txt'', RFile), (''sub'', RDir [(''f2.txt'', RFile)])]"
  by (simp add: data_tree_def)

lemma hostile_tree_walk:
  "download_sftp_dir ok_wenv hostile_tree ''/data'' ''/tmp/x'' =
     ([Makedirs ''/tmp/x'',
       Makedirs ''/tmp/x/..'', Get ''/data/../evil'' ''/tmp/x/../evil'',
       Makedirs ''/etc'', Get ''/data//etc/passwd'' ''/etc/passwd''], None)"
  by (simp add: hostile_tree_def walk_defs path_defs str_defs)

lemmas under_defs = lies_under_def is_abs_def resolve_def resolve_step_def startswith_def

lemma hostile_paths_escape:
  "\<not> lies_under ''/tmp/x'' ''/tmp/x/../evil''" "\<not> lies_under ''/tmp/x'' ''/etc/passwd''"
  by (simp_all add: under_defs)

lemma relative_climb_not_under:
  "\<not> lies_under [] ''../evil''" "\<not> lies_under ''.'' ''../../etc/passwd''"
  "\<not> lies_under ''..'' ''../../x''" "lies_under ''..'' ''../x''"
  by (simp_all add: under_defs)

lemmas tagged_defs = download_sftp_dir_tagged.simps download_sftp_file_def ok_wenv_def

lemma mixed_tree_walk:
  "download_sftp_dir_tagged ok_wenv mixed_tree [] ''/data'' ''/tmp/x'' =
     ([([], Makedirs ''/tmp/x''),
       ([''../b''], Makedirs ''/tmp/x/../b''),
       ([''../b'', ''x''], Makedirs ''/tmp/x/../b''),
       ([''../b'', ''x''], Get ''/data/../b/x'' ''/tmp/x/../b/x''),
       ([''ok.txt''], Makedirs ''/tmp/x''),
       ([''ok.txt''], Get ''/data/ok.txt'' ''/tmp/x/ok.txt'')], None)"
  by (simp add: mixed_tree_def tagged_defs path_defs str_defs)

lemma mixed_paths:
  "lies_under ''/tmp/x'' ''/tmp/x/ok.txt''" "\<not> lies_under ''/tmp/x'' ''/tmp/x/../b/x''"
  by (simp_all add: under_defs)

section \<open>The claims about the walker\<close>

text \<open>
  C8. The walker behaves on a remote tree exactly as on the tree without the entries
  named \<open>.\<close> or \<open>..\<close>: the same local directories are made and the same files fetched,
  in the same order and with the same outcome. Nothing is made or fetched for such an
  entry, and nothing below it is visited.
\<close>

theorem dot_entries_are_skipped:
  "download_sftp_dir w node remote_dir local_dir
     = download_sftp_dir w (without_dots node) remote_dir local_dir"
  by (simp add: walk_without_dots(1))

theorem dot_entries_are_skipped_witness:
  "without_dots data_tree = RDir [(''f1.txt'', RFile), (''sub'', RDir [(''f2.txt'', RFile)])]
   \<and> download_sftp_dir ok_wenv
         (RDir [(''f1.txt'', RFile), (''sub'', RDir [(''f2.txt'', RFile)])]) ''/data'' ''/tmp/x''
       = ([Makedirs ''/tmp/x'',
           Makedirs ''/tmp/x'', Get ''/data/f1.txt'' ''/tmp/x/f1.txt'',
           Makedirs ''/tmp/x/sub'',
           Makedirs ''/tmp/x/sub'', Get ''/data/sub/f2.txt'' ''/tmp/x/sub/f2.txt''], None)"
  using dot_entries_are_skipped[of ok_wenv data_tree "''/data''" "''/tmp/x''"]
  by (simp add: data_tree_walk data_tree_without_dots)

text \<open>
  C2, as stated, fails: the local path is \<open>os.path.join(local_dir, name)\<close> with the
  remote name as it comes. A name with a parent-directory sequence leads out of the
  target directory, and a name that starts with a path separator replaces it.
\<close>

theorem remote_name_escapes_target:
  "download_sftp_dir ok_wenv hostile_tree ''/data'' ''/tmp/x'' =
     ([Makedirs ''/tmp/x'',
       Makedirs ''/tmp/x/..'', Get ''/data/../evil'' ''/tmp/x/../evil'',
       Makedirs ''/etc'', Get ''/data//etc/passwd'' ''/etc/passwd''], None)
   \<and> \<not> lies_under ''/tmp/x'' ''/tmp/x/../evil''
   \<and> \<not> lies_under ''/tmp/x'' ''/etc/passwd''"
  by (simp add: hostile_tree_walk hostile_paths_escape)

text \<open>
  C2, amended. Take any entry that the walker visits, and the names that lead to it:
  its own name and the names of the remote directories through which the walker came
  to it from the remote root. If none of these names contains the path separator,
  then the local path that the walker constructs for the entry, and every local
  directory that it makes for it, lies under the local target directory. This holds
  entry by entry, whatever other names the remote tree holds. Local paths are those of
  \<open>posixpath\<close>, read lexically. The tagged walk lists the walker's own actions, in
  order and with the same outcome.
\<close>

theorem walker_stays_under_target:
  assumes "(names, a) \<in> set (fst (download_sftp_dir_tagged w node [] remote_dir local_dir))"
    and "\<forall>n \<in> set names. CHR ''/'' \<notin> set n"
  shows "lies_under local_dir (local_path_of a)
         \<and> (map snd (fst (download_sftp_dir_tagged w node [] remote_dir local_dir)),
            snd (download_sftp_dir_tagged w node [] remote_dir local_dir))
             = download_sftp_dir w node remote_dir local_dir"
proof -
  have "case (names, a) of (tag, a) \<Rightarrow>
      \<exists>more. tag = [] @ more
        \<and> ((\<forall>n \<in> set more. CHR ''/'' \<notin> set n) \<longrightarrow> lies_under local_dir (local_path_of a))"
    using tagged_walk_under(1) assms(1) by (rule bspec)
  with assms(2) have "lies_under local_dir (local_path_of a)"
    by simp
  moreover have "(map snd (fst (download_sftp_dir_tagged w node [] remote_dir local_dir)),
            snd (download_sftp_dir_tagged w node [] remote_dir local_dir))
             = download_sftp_dir w node remote_dir local_dir"
    by (rule tagged_walk_is_walk(1))
  ultimately show ?thesis ..
qed

theorem walker_stays_under_target_witness:
  "([''ok.txt''], Get ''/data/ok.txt'' ''/tmp/x/ok.txt'')
     \<in> set (fst (download_sftp_dir_tagged ok_wenv mixed_tree [] ''/data'' ''/tmp/x''))
   \<and> CHR ''/'' \<notin> set ''ok.txt''
   \<and> lies_under ''/tmp/x'' (local_path_of (Get ''/data/ok.txt'' ''/tmp/x/ok.txt''))
   \<and> (map snd (fst (download_sftp_dir_tagged ok_wenv mixed_tree [] ''/data'' ''/tmp/x'')),
       snd (download_sftp_dir_tagged ok_wenv mixed_tree [] ''/data'' ''/tmp/x''))
       = download_sftp_dir ok_wenv mixed_tree ''/data'' ''/tmp/x''"
proof -
  have h1: "([''ok.txt''], Get ''/data/ok.txt'' ''/tmp/x/ok.txt'')
     \<in> set (fst (download_sftp_dir_tagged ok_wenv mixed_tree [] ''/data'' ''/tmp/x''))"
    by (simp add: mixed_tree_walk)
  have h2: "\<forall>n \<in> set [''ok.txt'']. CHR ''/'' \<notin> set n"
    by simp
  have h3: "CHR ''/'' \<notin> set ''ok.txt''"
    by simp
  note r = walker_stays_under_target[OF h1 h2]
  from h1 h3 r[THEN conjunct1] r[THEN conjunct2] show ?thesis
    by (intro conjI)
qed

end
